theory Spec2Isabelle
  imports Complex_Main
begin

section \<open>Characters and strings\<close>

text \<open>
  The evaluator lives in \<^verbatim>\<open>public/formula.js\<close>. JavaScript strings are modelled as
  \<^typ>\<open>string\<close>; a character stands for the code unit of the same number. The regular
  expression classes of the source are ASCII classes (\<^verbatim>\<open>\d\<close>, \<^verbatim>\<open>[A-Z]\<close>, \<^verbatim>\<open>[A-Za-z_$]\<close>),
  and \<^verbatim>\<open>\s\<close> and \<^verbatim>\<open>trim()\<close> share one set of white space, of which the code units
  below 256 are listed. \<^verbatim>\<open>toUpperCase\<close> is modelled on the ASCII letters.
\<close>

definition isDigit :: "char \<Rightarrow> bool" where
  "isDigit c = (48 \<le> (of_char c :: nat) \<and> (of_char c :: nat) \<le> 57)"

definition isUpperAZ :: "char \<Rightarrow> bool" where
  "isUpperAZ c = (65 \<le> (of_char c :: nat) \<and> (of_char c :: nat) \<le> 90)"

definition isLowerAZ :: "char \<Rightarrow> bool" where
  "isLowerAZ c = (97 \<le> (of_char c :: nat) \<and> (of_char c :: nat) \<le> 122)"

definition isSpace :: "char \<Rightarrow> bool" where
  "isSpace c = ((of_char c :: nat) \<in> {9, 10, 11, 12, 13, 32, 160})"

definition toUpperChar :: "char \<Rightarrow> char" where
  "toUpperChar c = (if isLowerAZ c then char_of ((of_char c :: nat) - 32) else c)"

definition toUpperCase :: "string \<Rightarrow> string" where
  "toUpperCase s = map toUpperChar s"

definition trim :: "string \<Rightarrow> string" where
  "trim s = rev (dropWhile isSpace (rev (dropWhile isSpace s)))"

definition digitVal :: "char \<Rightarrow> int" where
  "digitVal c = (of_char c :: int) - 48"

text \<open>The value of a string of decimal digits, as \<^verbatim>\<open>Number\<close> reads it.\<close>

definition digitsToInt :: "string \<Rightarrow> int" where
  "digitsToInt ds = foldl (\<lambda>n c. n * 10 + digitVal c) 0 ds"

text \<open>The decimal digits of a non-negative integer, as a template literal prints it.\<close>

function intToDigits :: "int \<Rightarrow> string" where
  "intToDigits n =
     (if n < 10 then [char_of (48 + n)]
      else intToDigits (n div 10) @ [char_of (48 + n mod 10)])"
  by pat_completeness auto
termination
  by (relation "measure nat") auto

declare intToDigits.simps [simp del]

section \<open>The reference codec\<close>

text \<open>
  \<^verbatim>\<open>colToNum\<close> folds over the characters of its argument, whatever they are, so its
  result is an integer; \<^verbatim>\<open>numToCol\<close> loops while \<^verbatim>\<open>n > 0\<close>.
\<close>

definition colToNum :: "string \<Rightarrow> int" where
  "colToNum col = foldl (\<lambda>n ch. n * 26 + ((of_char ch :: int) - 64)) 0 col"

function numToCol_loop :: "int \<Rightarrow> string \<Rightarrow> string" where
  "numToCol_loop n s =
     (if n > 0
      then numToCol_loop ((n - 1) div 26) (char_of (65 + (n - 1) mod 26) # s)
      else s)"
  by pat_completeness auto
termination
  by (relation "measure (\<lambda>(n, s). nat n)") auto

declare numToCol_loop.simps [simp del]

definition numToCol :: "int \<Rightarrow> string" where
  "numToCol n = numToCol_loop n []"

definition normalizeRef :: "string \<Rightarrow> string" where
  "normalizeRef ref = toUpperCase (filter (\<lambda>c. c \<noteq> CHR ''$'') ref)"

datatype token_type = TNumber | TString | TIdent | TOp

datatype token = Token (ttype: token_type) (tvalue: string)

text \<open>
  Every \<^verbatim>\<open>throw\<close> of the source is a constructor; the string is the text the message
  quotes. \<open>TypeError\<close> is the error of reading \<^verbatim>\<open>node.type\<close> of \<^verbatim>\<open>undefined\<close>, when
  a call has fewer arguments than the evaluator reads.
\<close>

datatype error =
    BadCellRef string
  | UnexpectedChar char string
  | ExpectedOp string string
  | UnexpectedEnd string
  | BadRange string
  | UnexpectedToken token
  | NotFullyParsed string
  | TypeError
  | FuelExhausted

record cellref =
  col :: string
  row :: int

text \<open>The match of \<^verbatim>\<open>/^([A-Z]+)(\d+)$/\<close>: the letters are taken greedily.\<close>

definition splitRef :: "string \<Rightarrow> error + cellref" where
  "splitRef ref =
     (let letters = takeWhile isUpperAZ ref; digits = dropWhile isUpperAZ ref
      in if letters \<noteq> [] \<and> digits \<noteq> [] \<and> list_all isDigit digits
         then Inr \<lparr>col = letters, row = digitsToInt digits\<rparr>
         else Inl (BadCellRef ref))"

text \<open>\<^verbatim>\<open>String.prototype.split(":")\<close>.\<close>

fun splitColon :: "string \<Rightarrow> string list" where
  "splitColon [] = [[]]"
| "splitColon (c # cs) =
     (if c = CHR '':'' then [] # splitColon cs
      else (case splitColon cs of p # ps \<Rightarrow> (c # p) # ps | [] \<Rightarrow> [[c]]))"

text \<open>The two loops of \<^verbatim>\<open>expandRange\<close>, the inner one over the columns.\<close>

function colLoop :: "int \<Rightarrow> int \<Rightarrow> int \<Rightarrow> string list" where
  "colLoop c colEnd r =
     (if c \<le> colEnd then (numToCol c @ intToDigits r) # colLoop (c + 1) colEnd r else [])"
  by pat_completeness auto
termination
  by (relation "measure (\<lambda>(c, colEnd, r). nat (colEnd + 1 - c))") auto

declare colLoop.simps [simp del]

function rowLoop :: "int \<Rightarrow> int \<Rightarrow> int \<Rightarrow> int \<Rightarrow> string list" where
  "rowLoop r rowEnd colStart colEnd =
     (if r \<le> rowEnd then colLoop colStart colEnd r @ rowLoop (r + 1) rowEnd colStart colEnd
      else [])"
  by pat_completeness auto
termination
  by (relation "measure (\<lambda>(r, rowEnd, colStart, colEnd). nat (rowEnd + 1 - r))") auto

declare rowLoop.simps [simp del]

text \<open>
  A part that \<^verbatim>\<open>split\<close> does not produce is \<^verbatim>\<open>undefined\<close>, which the regular
  expression reads as the text \<^verbatim>\<open>undefined\<close>.
\<close>

definition expandRange :: "string \<Rightarrow> error + string list" where
  "expandRange rangeRef =
     (let parts = map normalizeRef (splitColon rangeRef);
          a = parts ! 0;
          b = (if 1 < length parts then parts ! 1 else ''undefined'')
      in case splitRef a of
           Inl e \<Rightarrow> Inl e
         | Inr ra \<Rightarrow>
             (case splitRef b of
                Inl e \<Rightarrow> Inl e
              | Inr rb \<Rightarrow>
                  (let colStart = min (colToNum (col ra)) (colToNum (col rb));
                       colEnd = max (colToNum (col ra)) (colToNum (col rb));
                       rowStart = min (row ra) (row rb);
                       rowEnd = max (row ra) (row rb)
                   in Inr (rowLoop rowStart rowEnd colStart colEnd))))"

section \<open>Numbers\<close>

text \<open>
  A JavaScript number is a double. The model keeps the special values and takes the
  finite ones as exact rationals: rounding and the sign of zero are left out, so
  arithmetic is exact and \<^verbatim>\<open>1 / -0\<close> is not told from \<^verbatim>\<open>1 / 0\<close>.
\<close>

datatype jsnum = Fin rat | PInf | NInf | NaN

fun jsneg :: "jsnum \<Rightarrow> jsnum" where
  "jsneg (Fin a) = Fin (- a)"
| "jsneg PInf = NInf"
| "jsneg NInf = PInf"
| "jsneg NaN = NaN"

fun jsadd :: "jsnum \<Rightarrow> jsnum \<Rightarrow> jsnum" where
  "jsadd NaN _ = NaN"
| "jsadd _ NaN = NaN"
| "jsadd PInf NInf = NaN"
| "jsadd NInf PInf = NaN"
| "jsadd PInf _ = PInf"
| "jsadd _ PInf = PInf"
| "jsadd NInf _ = NInf"
| "jsadd _ NInf = NInf"
| "jsadd (Fin a) (Fin b) = Fin (a + b)"

definition jssub :: "jsnum \<Rightarrow> jsnum \<Rightarrow> jsnum" where
  "jssub a b = jsadd a (jsneg b)"

text \<open>The infinity of the sign of a finite, non-zero factor.\<close>

definition signedInf :: "rat \<Rightarrow> jsnum" where
  "signedInf a = (if a = 0 then NaN else if 0 < a then PInf else NInf)"

fun jsmul :: "jsnum \<Rightarrow> jsnum \<Rightarrow> jsnum" where
  "jsmul NaN _ = NaN"
| "jsmul _ NaN = NaN"
| "jsmul (Fin a) (Fin b) = Fin (a * b)"
| "jsmul (Fin a) PInf = signedInf a"
| "jsmul (Fin a) NInf = signedInf (- a)"
| "jsmul PInf (Fin b) = signedInf b"
| "jsmul NInf (Fin b) = signedInf (- b)"
| "jsmul PInf PInf = PInf"
| "jsmul PInf NInf = NInf"
| "jsmul NInf PInf = NInf"
| "jsmul NInf NInf = PInf"

fun jsdiv :: "jsnum \<Rightarrow> jsnum \<Rightarrow> jsnum" where
  "jsdiv NaN _ = NaN"
| "jsdiv _ NaN = NaN"
| "jsdiv (Fin a) (Fin b) = (if b = 0 then signedInf a else Fin (a / b))"
| "jsdiv (Fin a) _ = Fin 0"
| "jsdiv PInf (Fin b) = (if 0 \<le> b then PInf else NInf)"
| "jsdiv NInf (Fin b) = (if 0 \<le> b then NInf else PInf)"
| "jsdiv _ _ = NaN"

fun jslt :: "jsnum \<Rightarrow> jsnum \<Rightarrow> bool" where
  "jslt NaN _ = False"
| "jslt _ NaN = False"
| "jslt (Fin a) (Fin b) = (a < b)"
| "jslt _ NInf = False"
| "jslt PInf _ = False"
| "jslt NInf _ = True"
| "jslt _ PInf = True"

definition jsle :: "jsnum \<Rightarrow> jsnum \<Rightarrow> bool" where
  "jsle a b = (jslt a b \<or> (a = b \<and> a \<noteq> NaN))"

definition isFinite :: "jsnum \<Rightarrow> bool" where
  "isFinite n = (case n of Fin _ \<Rightarrow> True | _ \<Rightarrow> False)"

subsection \<open>\<^verbatim>\<open>Number(string)\<close>\<close>

definition radixDigit :: "int \<Rightarrow> char \<Rightarrow> int option" where
  "radixDigit radix c =
     (let d = (if isDigit c then Some (digitVal c)
               else if isLowerAZ c then Some ((of_char c :: int) - 87)
               else if isUpperAZ c then Some ((of_char c :: int) - 55)
               else None)
      in case d of Some k \<Rightarrow> (if k < radix then Some k else None) | None \<Rightarrow> None)"

text \<open>The literals \<^verbatim>\<open>0x..\<close>, \<^verbatim>\<open>0o..\<close> and \<^verbatim>\<open>0b..\<close>, after their prefix.\<close>

definition radixLiteral :: "int \<Rightarrow> string \<Rightarrow> jsnum" where
  "radixLiteral radix ds =
     (if ds \<noteq> [] \<and> list_all (\<lambda>c. radixDigit radix c \<noteq> None) ds
      then Fin (of_int (foldl (\<lambda>n c. n * radix + the (radixDigit radix c)) 0 ds))
      else NaN)"

text \<open>The exponent part, empty or \<^verbatim>\<open>e\<close> with a signed integer.\<close>

definition exponentPart :: "string \<Rightarrow> int option" where
  "exponentPart s =
     (case s of
        [] \<Rightarrow> Some 0
      | c # r \<Rightarrow>
          if c = CHR ''e'' \<or> c = CHR ''E''
          then (let neg = (r \<noteq> [] \<and> hd r = CHR ''-'');
                    ds = (if r \<noteq> [] \<and> (hd r = CHR ''+'' \<or> hd r = CHR ''-'') then tl r else r)
                in if ds \<noteq> [] \<and> list_all isDigit ds
                   then Some (if neg then - digitsToInt ds else digitsToInt ds)
                   else None)
          else None)"

definition scale10 :: "rat \<Rightarrow> int \<Rightarrow> rat" where
  "scale10 m e = (if 0 \<le> e then m * 10 ^ nat e else m / 10 ^ nat (- e))"

definition strUnsignedDecimal :: "string \<Rightarrow> jsnum" where
  "strUnsignedDecimal s =
     (if s = ''Infinity'' then PInf
      else
        (let ip = takeWhile isDigit s;
             r1 = dropWhile isDigit s;
             hasDot = (r1 \<noteq> [] \<and> hd r1 = CHR ''.'');
             fp = (if hasDot then takeWhile isDigit (tl r1) else []);
             r2 = (if hasDot then dropWhile isDigit (tl r1) else r1)
         in if ip = [] \<and> fp = [] then NaN
            else (case exponentPart r2 of
                    None \<Rightarrow> NaN
                  | Some e \<Rightarrow>
                      Fin (scale10 (of_int (digitsToInt ip)
                                     + of_int (digitsToInt fp) / 10 ^ length fp) e))))"

definition jsNumber :: "string \<Rightarrow> jsnum" where
  "jsNumber s =
     (let t = trim s
      in if t = [] then Fin 0
         else if take 2 t = ''0x'' \<or> take 2 t = ''0X'' then radixLiteral 16 (drop 2 t)
         else if take 2 t = ''0o'' \<or> take 2 t = ''0O'' then radixLiteral 8 (drop 2 t)
         else if take 2 t = ''0b'' \<or> take 2 t = ''0B'' then radixLiteral 2 (drop 2 t)
         else if hd t = CHR ''+'' then strUnsignedDecimal (tl t)
         else if hd t = CHR ''-'' then jsneg (strUnsignedDecimal (tl t))
         else strUnsignedDecimal t)"

subsection \<open>\<^verbatim>\<open>String(number)\<close>\<close>

text \<open>
  The text of a positive number \<open>p / q\<close> is made of its first significant digits, at
  most 17 as for a double, and of the position \<open>n\<close> of the decimal point: the number
  lies between \<open>10 ^ (n - 1)\<close> and \<open>10 ^ n\<close>. A number whose decimal expansion has more
  than 17 digits is cut there, where a double gives its shortest exact text.
\<close>

function negExp :: "int \<Rightarrow> int \<Rightarrow> int" where
  "negExp p q = (if 0 < p \<and> p * 10 < q then negExp (p * 10) q - 1 else 0)"
  by pat_completeness auto
termination
  by (relation "measure (\<lambda>(p, q). nat (q - p))") auto

declare negExp.simps [simp del]

definition pointPos :: "int \<Rightarrow> int \<Rightarrow> int" where
  "pointPos p q = (if q \<le> p then int (length (intToDigits (p div q))) else negExp p q)"

definition stripZeros :: "string \<Rightarrow> string" where
  "stripZeros ds = rev (dropWhile (\<lambda>c. c = CHR ''0'') (rev ds))"

definition sigDigits :: "int \<Rightarrow> int \<Rightarrow> int \<Rightarrow> string" where
  "sigDigits p q n =
     stripZeros (intToDigits (if n \<le> 17 then (p * 10 ^ nat (17 - n)) div q
                              else p div (q * 10 ^ nat (n - 17))))"

definition formatDigits :: "string \<Rightarrow> int \<Rightarrow> string" where
  "formatDigits ds n =
     (let k = int (length ds)
      in if k \<le> n \<and> n \<le> 21 then ds @ replicate (nat (n - k)) (CHR ''0'')
         else if 0 < n \<and> n \<le> 21 then take (nat n) ds @ ''.'' @ drop (nat n) ds
         else if - 6 < n \<and> n \<le> 0 then ''0.'' @ replicate (nat (- n)) (CHR ''0'') @ ds
         else (let e = n - 1;
                   es = (if e < 0 then ''-'' else ''+'') @ intToDigits \<bar>e\<bar>
               in if k = 1 then ds @ ''e'' @ es
                  else take 1 ds @ ''.'' @ drop 1 ds @ ''e'' @ es))"

definition positiveToString :: "rat \<Rightarrow> string" where
  "positiveToString r =
     (let (p, q) = quotient_of r; n = pointPos p q
      in formatDigits (sigDigits p q n) n)"

definition numberToString :: "jsnum \<Rightarrow> string" where
  "numberToString n =
     (case n of
        NaN \<Rightarrow> ''NaN''
      | PInf \<Rightarrow> ''Infinity''
      | NInf \<Rightarrow> ''-Infinity''
      | Fin r \<Rightarrow>
          if r = 0 then ''0''
          else if r < 0 then ''-'' @ positiveToString (- r)
          else positiveToString r)"

section \<open>Values and coercions\<close>

text \<open>
  The values of cells and of expressions: the raw values of the document and of the
  overrides (JSON without objects), the results of the operators, and the array a
  range evaluates to. \<open>VUndefined\<close> is the value of a cell record without \<^verbatim>\<open>v\<close>.
\<close>

datatype jsval =
    VNull
  | VUndefined
  | VNum jsnum
  | VStr string
  | VBool bool
  | VArr "jsval list"

text \<open>\<^verbatim>\<open>String(v)\<close>; an array joins its elements with commas, a hole standing for
  \<^verbatim>\<open>null\<close> and \<^verbatim>\<open>undefined\<close>.\<close>

fun jsString :: "jsval \<Rightarrow> string"
  and jsJoin :: "jsval list \<Rightarrow> string" where
  "jsString VNull = ''null''"
| "jsString VUndefined = ''undefined''"
| "jsString (VNum n) = numberToString n"
| "jsString (VStr s) = s"
| "jsString (VBool b) = (if b then ''true'' else ''false'')"
| "jsString (VArr xs) = jsJoin xs"
| "jsJoin [] = []"
| "jsJoin (x # xs) =
     (if x = VNull \<or> x = VUndefined then [] else jsString x)
     @ (if xs = [] then [] else '','' @ jsJoin xs)"

text \<open>\<^verbatim>\<open>Number(v)\<close>.\<close>

fun jsNumberOf :: "jsval \<Rightarrow> jsnum" where
  "jsNumberOf VNull = Fin 0"
| "jsNumberOf VUndefined = NaN"
| "jsNumberOf (VNum n) = n"
| "jsNumberOf (VStr s) = jsNumber s"
| "jsNumberOf (VBool b) = (if b then Fin 1 else Fin 0)"
| "jsNumberOf (VArr xs) = jsNumber (jsJoin xs)"

fun isNumberLike :: "jsval \<Rightarrow> bool" where
  "isNumberLike VNull = False"
| "isNumberLike VUndefined = False"
| "isNumberLike (VNum n) = isFinite n"
| "isNumberLike (VStr s) = (trim s \<noteq> [] \<and> jsNumber s \<noteq> NaN)"
| "isNumberLike _ = False"

fun toNumber :: "jsval \<Rightarrow> jsnum" where
  "toNumber VNull = Fin 0"
| "toNumber VUndefined = Fin 0"
| "toNumber (VNum n) = n"
| "toNumber (VStr s) =
     (let t = trim s
      in if t = [] then Fin 0
         else (let n = jsNumber t in if n = NaN then Fin 0 else n))"
| "toNumber _ = Fin 0"

fun toText :: "jsval \<Rightarrow> string" where
  "toText VNull = []"
| "toText VUndefined = []"
| "toText x = jsString x"

fun truthyExcel :: "jsval \<Rightarrow> bool" where
  "truthyExcel VNull = False"
| "truthyExcel VUndefined = False"
| "truthyExcel (VBool b) = b"
| "truthyExcel (VNum n) = (n \<noteq> Fin 0)"
| "truthyExcel (VStr s) = (s \<noteq> [])"
| "truthyExcel (VArr xs) = True"

text \<open>\<^verbatim>\<open>replace(/\s+/g, " ")\<close>: every run of white space becomes one space.\<close>

function collapseSpaces :: "string \<Rightarrow> string" where
  "collapseSpaces [] = []"
| "collapseSpaces (c # cs) =
     (if isSpace c then CHR '' '' # collapseSpaces (dropWhile isSpace cs)
      else c # collapseSpaces cs)"
  by pat_completeness auto
termination
  by (relation "measure length") (auto simp: le_imp_less_Suc length_dropWhile_le)

definition trimExcel :: "jsval \<Rightarrow> string" where
  "trimExcel x = collapseSpaces (trim (toText x))"

section \<open>The tokenizer\<close>

definition isIdentStart :: "char \<Rightarrow> bool" where
  "isIdentStart c = (isUpperAZ c \<or> isLowerAZ c \<or> c = CHR ''_'' \<or> c = CHR ''$'')"

definition isIdentChar :: "char \<Rightarrow> bool" where
  "isIdentChar c = (isIdentStart c \<or> isDigit c)"

definition isOpChar :: "char \<Rightarrow> bool" where
  "isOpChar c = (c \<in> set ''+-*/&(),:<>='')"

definition isNumberChar :: "char \<Rightarrow> bool" where
  "isNumberChar c = (isDigit c \<or> c = CHR ''.'')"

text \<open>
  The inner loop of a string literal, from the character after the opening quote: the
  text of the literal and what follows its closing quote. A doubled quote stands for
  one quote; a literal that is not closed runs to the end of the input.
\<close>

fun scanString :: "string \<Rightarrow> string \<times> string" where
  "scanString [] = ([], [])"
| "scanString (c # cs) =
     (if c = CHR 0x22 \<and> cs \<noteq> [] \<and> hd cs = CHR 0x22
      then (let (out, rest) = scanString (tl cs) in (CHR 0x22 # out, rest))
      else if c = CHR 0x22 then ([], cs)
      else (let (out, rest) = scanString cs in (c # out, rest)))"

lemma scanString_length: "length (snd (scanString cs)) \<le> length cs"
proof (induction cs rule: scanString.induct)
  case 1
  show ?case by simp
next
  case (2 c cs)
  show ?case
  proof (cases "c = CHR 0x22 \<and> cs \<noteq> [] \<and> hd cs = CHR 0x22")
    case True
    then have "length (snd (scanString (tl cs))) \<le> length (tl cs)" using 2(1) by simp
    moreover have "snd (scanString (c # cs)) = snd (scanString (tl cs))"
      using True by (simp add: case_prod_unfold Let_def)
    ultimately show ?thesis by simp
  next
    case False
    show ?thesis
    proof (cases "c = CHR 0x22")
      case True
      then have "snd (scanString (c # cs)) = cs" using False by auto
      then show ?thesis by simp
    next
      case c: False
      then have "length (snd (scanString cs)) \<le> length cs" using 2(2) by simp
      moreover have "snd (scanString (c # cs)) = snd (scanString cs)"
        using c by (simp add: case_prod_unfold Let_def)
      ultimately show ?thesis by simp
    qed
  qed
qed

text \<open>
  The main loop of \<^verbatim>\<open>tokenize\<close> over what is left of the trimmed formula, with the
  tokens pushed so far. The checks are in the order of the source.
\<close>

function tokenize_loop :: "string \<Rightarrow> string \<Rightarrow> token list \<Rightarrow> error + token list" where
  "tokenize_loop formula [] tokens = Inr tokens"
| "tokenize_loop formula (ch # rest) tokens =
     (if isSpace ch then tokenize_loop formula rest tokens
      else if ch = CHR 0x22
      then tokenize_loop formula (snd (scanString rest))
             (tokens @ [Token TString (fst (scanString rest))])
      else if take 2 (ch # rest) \<in> set [''<>'', ''<='', ''>='']
      then tokenize_loop formula (drop 1 rest) (tokens @ [Token TOp (take 2 (ch # rest))])
      else if isOpChar ch
      then tokenize_loop formula rest (tokens @ [Token TOp [ch]])
      else if isDigit ch \<or> (ch = CHR ''.'' \<and> rest \<noteq> [] \<and> isDigit (hd rest))
      then tokenize_loop formula (dropWhile isNumberChar rest)
             (tokens @ [Token TNumber (ch # takeWhile isNumberChar rest)])
      else if isIdentStart ch
      then tokenize_loop formula (dropWhile isIdentChar rest)
             (tokens @ [Token TIdent (ch # takeWhile isIdentChar rest)])
      else Inl (UnexpectedChar ch formula))"
  by pat_completeness auto
termination
  by (relation "measure (\<lambda>(formula, s, tokens). length s)")
     (auto simp: le_imp_less_Suc length_dropWhile_le scanString_length)

declare tokenize_loop.simps [simp del]

definition tokenize :: "string \<Rightarrow> error + token list" where
  "tokenize formula = tokenize_loop formula (trim formula) []"

section \<open>The parser\<close>

text \<open>The nodes of the expression tree, one constructor for each \<^verbatim>\<open>type\<close> tag.\<close>

datatype ast =
    NumNode jsnum
  | StrNode string
  | CellNode string
  | RangeNode string
  | NameNode string
  | UnaryNode string ast
  | BinNode string ast ast
  | CallNode string "ast list"

text \<open>\<^verbatim>\<open>acceptOp\<close>: the tokens after the operator when the next token is that operator.\<close>

definition acceptOp :: "string \<Rightarrow> token list \<Rightarrow> token list option" where
  "acceptOp op ts =
     (case ts of
        [] \<Rightarrow> None
      | t # rest \<Rightarrow> if ttype t = TOp \<and> tvalue t = op then Some rest else None)"

text \<open>\<^verbatim>\<open>peek() && peek().type === "op" && ops.includes(peek().value)\<close>.\<close>

definition peekOp :: "string list \<Rightarrow> token list \<Rightarrow> bool" where
  "peekOp ops ts =
     (case ts of [] \<Rightarrow> False | t # rest \<Rightarrow> ttype t = TOp \<and> tvalue t \<in> set ops)"

text \<open>The test \<^verbatim>\<open>/^\$?[A-Z]{1,3}\$?\d+$/\<close> of an upper-cased identifier.\<close>

definition isCellIdent :: "string \<Rightarrow> bool" where
  "isCellIdent ident =
     (let s1 = (if ident \<noteq> [] \<and> hd ident = CHR ''$'' then tl ident else ident);
          letters = takeWhile isUpperAZ s1;
          s2 = dropWhile isUpperAZ s1;
          digits = (if s2 \<noteq> [] \<and> hd s2 = CHR ''$'' then tl s2 else s2)
      in 1 \<le> length letters \<and> length letters \<le> 3 \<and> digits \<noteq> [] \<and> list_all isDigit digits)"

text \<open>
  The recursive descent of \<^verbatim>\<open>parse\<close> is one function, \<open>descend\<close>, with the function
  of the source that is running as an argument: \<open>ParseCompare\<close> stands for
  \<^verbatim>\<open>parseCompare\<close>, and so on. The loops of the source are the rules named \<open>Loop\<close>,
  which carry the node built so far; \<open>ArgsLoop\<close> is the loop over the arguments of a
  call, with the name of the function and the arguments read so far. A call takes the
  tokens from the position \<^verbatim>\<open>pos\<close> on and returns its node with the tokens left.

  The first argument bounds the depth of the calls: each call passes one less to the
  calls it makes, and a call at depth 0 gives \<open>FuelExhausted\<close>, which is no error of
  the source.
\<close>

datatype rule =
    ParseExpr
  | ParseCompare
  | CompareLoop ast
  | ParseConcat
  | ConcatLoop ast
  | ParseAdd
  | AddLoop ast
  | ParseMul
  | MulLoop ast
  | ParseUnary
  | ParsePrimary
  | ArgsLoop string "ast list"

type_synonym presult = "error + ast \<times> token list"

fun descend :: "nat \<Rightarrow> string \<Rightarrow> rule \<Rightarrow> token list \<Rightarrow> presult" where
  "descend 0 formula r ts = Inl FuelExhausted"
| "descend (Suc n) formula ParseExpr ts = descend n formula ParseCompare ts"
| "descend (Suc n) formula ParseCompare ts =
     (case descend n formula ParseConcat ts of
        Inl e \<Rightarrow> Inl e
      | Inr (node, rest) \<Rightarrow> descend n formula (CompareLoop node) rest)"
| "descend (Suc n) formula (CompareLoop node) ts =
     (if peekOp [''='', ''<>'', ''<'', ''>'', ''<='', ''>=''] ts
      then (case descend n formula ParseConcat (tl ts) of
              Inl e \<Rightarrow> Inl e
            | Inr (right, rest) \<Rightarrow>
                descend n formula (CompareLoop (BinNode (tvalue (hd ts)) node right)) rest)
      else Inr (node, ts))"
| "descend (Suc n) formula ParseConcat ts =
     (case descend n formula ParseAdd ts of
        Inl e \<Rightarrow> Inl e
      | Inr (node, rest) \<Rightarrow> descend n formula (ConcatLoop node) rest)"
| "descend (Suc n) formula (ConcatLoop node) ts =
     (case acceptOp ''&'' ts of
        Some ts1 \<Rightarrow>
          (case descend n formula ParseAdd ts1 of
             Inl e \<Rightarrow> Inl e
           | Inr (right, rest) \<Rightarrow>
               descend n formula (ConcatLoop (BinNode ''&'' node right)) rest)
      | None \<Rightarrow> Inr (node, ts))"
| "descend (Suc n) formula ParseAdd ts =
     (case descend n formula ParseMul ts of
        Inl e \<Rightarrow> Inl e
      | Inr (node, rest) \<Rightarrow> descend n formula (AddLoop node) rest)"
| "descend (Suc n) formula (AddLoop node) ts =
     (if peekOp [''+'', ''-''] ts
      then (case descend n formula ParseMul (tl ts) of
              Inl e \<Rightarrow> Inl e
            | Inr (right, rest) \<Rightarrow>
                descend n formula (AddLoop (BinNode (tvalue (hd ts)) node right)) rest)
      else Inr (node, ts))"
| "descend (Suc n) formula ParseMul ts =
     (case descend n formula ParseUnary ts of
        Inl e \<Rightarrow> Inl e
      | Inr (node, rest) \<Rightarrow> descend n formula (MulLoop node) rest)"
| "descend (Suc n) formula (MulLoop node) ts =
     (if peekOp [''*'', ''/''] ts
      then (case descend n formula ParseUnary (tl ts) of
              Inl e \<Rightarrow> Inl e
            | Inr (right, rest) \<Rightarrow>
                descend n formula (MulLoop (BinNode (tvalue (hd ts)) node right)) rest)
      else Inr (node, ts))"
| "descend (Suc n) formula ParseUnary ts =
     (if peekOp [''+'', ''-''] ts
      then (case descend n formula ParseUnary (tl ts) of
              Inl e \<Rightarrow> Inl e
            | Inr (expr, rest) \<Rightarrow> Inr (UnaryNode (tvalue (hd ts)) expr, rest))
      else descend n formula ParsePrimary ts)"
| "descend (Suc n) formula ParsePrimary ts =
     (case ts of
        [] \<Rightarrow> Inl (UnexpectedEnd formula)
      | t # rest \<Rightarrow>
          (case acceptOp ''('' ts of
             Some ts1 \<Rightarrow>
               (case descend n formula ParseExpr ts1 of
                  Inl e \<Rightarrow> Inl e
                | Inr (e, ts2) \<Rightarrow>
                    (case acceptOp '')'' ts2 of
                       Some ts3 \<Rightarrow> Inr (e, ts3)
                     | None \<Rightarrow> Inl (ExpectedOp '')'' formula)))
           | None \<Rightarrow>
               if ttype t = TNumber then Inr (NumNode (jsNumber (tvalue t)), rest)
               else if ttype t = TString then Inr (StrNode (tvalue t), rest)
               else if ttype t = TIdent
               then (case acceptOp ''('' rest of
                       Some ts1 \<Rightarrow>
                         (case acceptOp '')'' ts1 of
                            Some ts2 \<Rightarrow> Inr (CallNode (toUpperCase (tvalue t)) [], ts2)
                          | None \<Rightarrow>
                              descend n formula (ArgsLoop (toUpperCase (tvalue t)) []) ts1)
                     | None \<Rightarrow>
                         if peekOp ['':''] rest
                         then (case tl rest of
                                 [] \<Rightarrow> Inl (BadRange formula)
                               | t2 # ts2 \<Rightarrow>
                                   if ttype t2 = TIdent
                                   then Inr (RangeNode (tvalue t @ '':'' @ tvalue t2), ts2)
                                   else Inl (BadRange formula))
                         else if isCellIdent (toUpperCase (tvalue t))
                         then Inr (CellNode (tvalue t), rest)
                         else Inr (NameNode (toUpperCase (tvalue t)), rest))
               else Inl (UnexpectedToken t)))"
| "descend (Suc n) formula (ArgsLoop ident args) ts =
     (case descend n formula ParseExpr ts of
        Inl e \<Rightarrow> Inl e
      | Inr (a, ts1) \<Rightarrow>
          (case acceptOp '')'' ts1 of
             Some ts2 \<Rightarrow> Inr (CallNode ident (args @ [a]), ts2)
           | None \<Rightarrow>
               (case acceptOp '','' ts1 of
                  Some ts2 \<Rightarrow> descend n formula (ArgsLoop ident (args @ [a])) ts2
                | None \<Rightarrow> Inl (ExpectedOp '','' formula))))"

text \<open>
  \<^verbatim>\<open>parse\<close>. The depth given here is more than the tokens of the formula can use, as
  is proved below.
\<close>

definition parse :: "string \<Rightarrow> error + ast" where
  "parse formula =
     (case tokenize formula of
        Inl e \<Rightarrow> Inl e
      | Inr tokens \<Rightarrow>
          (case descend (12 * length tokens + 12) formula ParseExpr tokens of
             Inl e \<Rightarrow> Inl e
           | Inr (ast, rest) \<Rightarrow>
               if rest \<noteq> [] then Inl (NotFullyParsed formula) else Inr ast))"


subsection \<open>The depth is enough\<close>

text \<open>
  \<open>parse\<close> never gives \<open>FuelExhausted\<close>: a call of the rule \<open>r\<close> on the tokens \<open>ts\<close> needs
  a depth of at most \<open>rank r + 8 * length ts\<close>, since every rule but the four loops
  consumes a token (\<open>slack\<close>) and at most eight calls are nested before one is
  consumed.
\<close>

fun rank :: "rule \<Rightarrow> nat" where
  "rank ParseExpr = 7"
| "rank ParseCompare = 6"
| "rank ParseConcat = 5"
| "rank ParseAdd = 4"
| "rank ParseMul = 3"
| "rank ParseUnary = 2"
| "rank ParsePrimary = 1"
| "rank (ArgsLoop ident args) = 8"
| "rank (CompareLoop node) = 1"
| "rank (ConcatLoop node) = 1"
| "rank (AddLoop node) = 1"
| "rank (MulLoop node) = 1"

fun slack :: "rule \<Rightarrow> nat" where
  "slack (CompareLoop node) = 0"
| "slack (ConcatLoop node) = 0"
| "slack (AddLoop node) = 0"
| "slack (MulLoop node) = 0"
| "slack ParseExpr = 1"
| "slack ParseCompare = 1"
| "slack ParseConcat = 1"
| "slack ParseAdd = 1"
| "slack ParseMul = 1"
| "slack ParseUnary = 1"
| "slack ParsePrimary = 1"
| "slack (ArgsLoop ident args) = 1"

definition fuelOk :: "presult \<Rightarrow> token list \<Rightarrow> rule \<Rightarrow> bool" where
  "fuelOk res ts r =
     (case res of
        Inl e \<Rightarrow> e \<noteq> FuelExhausted
      | Inr (node, rest) \<Rightarrow> length rest + slack r \<le> length ts)"

lemma fuelOk_Inl [simp]: "fuelOk (Inl e) ts r = (e \<noteq> FuelExhausted)"
  by (simp add: fuelOk_def)

lemma fuelOk_Inr [simp]: "fuelOk (Inr (node, rest)) ts r = (length rest + slack r \<le> length ts)"
  by (simp add: fuelOk_def)

lemma fuelOk_mono:
  assumes "fuelOk res ts1 r1" and "length ts1 + slack r \<le> length ts + slack r1"
  shows "fuelOk res ts r"
  using assms by (auto simp: fuelOk_def split: sum.splits)

lemma bind_ok:
  assumes "fuelOk (descend n f p ts1) ts1 p"
    and "\<And>node rest. descend n f p ts1 = Inr (node, rest) \<Longrightarrow> length rest + slack p \<le> length ts1
           \<Longrightarrow> fuelOk (k node rest) ts r"
  shows "fuelOk (case descend n f p ts1 of Inl e \<Rightarrow> Inl e | Inr (node, rest) \<Rightarrow> k node rest) ts r"
  using assms by (cases "descend n f p ts1") auto

lemma acceptOp_length: "acceptOp op ts = Some rest \<Longrightarrow> length ts = Suc (length rest)"
  by (auto simp: acceptOp_def split: list.splits if_splits)

lemma peekOp_length: "peekOp ops ts \<Longrightarrow> \<exists>k. length ts = Suc k"
  by (auto simp: peekOp_def split: list.splits)

lemma descend_fuel: "rank r + 8 * length ts \<le> n \<Longrightarrow> fuelOk (descend n f r ts) ts r"
proof (induction n arbitrary: r ts)
  case 0
  then show ?case by (cases r) auto
next
  case (Suc n)
  note IH = Suc.IH
  show ?case
  proof (cases r)
    case ParseExpr
    have "fuelOk (descend n f ParseCompare ts) ts ParseCompare"
      using Suc.prems ParseExpr by (intro IH) simp
    then have "fuelOk (descend n f ParseCompare ts) ts ParseExpr"
      by (rule fuelOk_mono) simp
    then show ?thesis using ParseExpr by simp
  next
    case ParseCompare
    have "fuelOk (case descend n f ParseConcat ts of Inl e \<Rightarrow> Inl e
                  | Inr (node, rest) \<Rightarrow> descend n f (CompareLoop node) rest) ts ParseCompare"
    proof (rule bind_ok)
      show "fuelOk (descend n f ParseConcat ts) ts ParseConcat"
        using Suc.prems ParseCompare by (intro IH) simp
    next
      fix node :: ast and rest :: "token list"
      assume "length rest + slack ParseConcat \<le> length ts"
      then have l: "length rest + 1 \<le> length ts" by simp
      have "fuelOk (descend n f (CompareLoop node) rest) rest (CompareLoop node)"
        using Suc.prems ParseCompare l by (intro IH) simp
      then show "fuelOk (descend n f (CompareLoop node) rest) ts ParseCompare"
        by (rule fuelOk_mono) (use l in simp)
    qed
    then show ?thesis using ParseCompare by simp
  next
    case (CompareLoop node)
    show ?thesis
    proof (cases "peekOp [''='', ''<>'', ''<'', ''>'', ''<='', ''>=''] ts")
      case False
      then show ?thesis using CompareLoop by simp
    next
      case True
      from peekOp_length[OF True] obtain k where len: "length ts = Suc k" by auto
      have "fuelOk (case descend n f ParseConcat (tl ts) of Inl e \<Rightarrow> Inl e
                    | Inr (right, rest) \<Rightarrow>
                        descend n f (CompareLoop (BinNode (tvalue (hd ts)) node right)) rest)
              ts (CompareLoop node)"
      proof (rule bind_ok)
        show "fuelOk (descend n f ParseConcat (tl ts)) (tl ts) ParseConcat"
          using Suc.prems CompareLoop len by (intro IH) simp
      next
        fix right :: ast and rest :: "token list"
        assume "length rest + slack ParseConcat \<le> length (tl ts)"
        then have l: "length rest + 2 \<le> length ts" using len by simp
        have "fuelOk (descend n f (CompareLoop (BinNode (tvalue (hd ts)) node right)) rest) rest
                (CompareLoop (BinNode (tvalue (hd ts)) node right))"
          using Suc.prems CompareLoop l by (intro IH) simp
        then show "fuelOk (descend n f (CompareLoop (BinNode (tvalue (hd ts)) node right)) rest)
                     ts (CompareLoop node)"
          by (rule fuelOk_mono) (use l in simp)
      qed
      then show ?thesis using CompareLoop True by simp
    qed
  next
    case ParseConcat
    have "fuelOk (case descend n f ParseAdd ts of Inl e \<Rightarrow> Inl e
                  | Inr (node, rest) \<Rightarrow> descend n f (ConcatLoop node) rest) ts ParseConcat"
    proof (rule bind_ok)
      show "fuelOk (descend n f ParseAdd ts) ts ParseAdd"
        using Suc.prems ParseConcat by (intro IH) simp
    next
      fix node :: ast and rest :: "token list"
      assume "length rest + slack ParseAdd \<le> length ts"
      then have l: "length rest + 1 \<le> length ts" by simp
      have "fuelOk (descend n f (ConcatLoop node) rest) rest (ConcatLoop node)"
        using Suc.prems ParseConcat l by (intro IH) simp
      then show "fuelOk (descend n f (ConcatLoop node) rest) ts ParseConcat"
        by (rule fuelOk_mono) (use l in simp)
    qed
    then show ?thesis using ParseConcat by simp
  next
    case (ConcatLoop node)
    show ?thesis
    proof (cases "acceptOp ''&'' ts")
      case None
      then show ?thesis using ConcatLoop by simp
    next
      case (Some ts1)
      note len = acceptOp_length[OF Some]
      have "fuelOk (case descend n f ParseAdd ts1 of Inl e \<Rightarrow> Inl e
                    | Inr (right, rest) \<Rightarrow>
                        descend n f (ConcatLoop (BinNode ''&'' node right)) rest)
              ts (ConcatLoop node)"
      proof (rule bind_ok)
        show "fuelOk (descend n f ParseAdd ts1) ts1 ParseAdd"
          using Suc.prems ConcatLoop len by (intro IH) simp
      next
        fix right :: ast and rest :: "token list"
        assume "length rest + slack ParseAdd \<le> length ts1"
        then have l: "length rest + 2 \<le> length ts" using len by simp
        have "fuelOk (descend n f (ConcatLoop (BinNode ''&'' node right)) rest) rest
                (ConcatLoop (BinNode ''&'' node right))"
          using Suc.prems ConcatLoop l by (intro IH) simp
        then show "fuelOk (descend n f (ConcatLoop (BinNode ''&'' node right)) rest)
                     ts (ConcatLoop node)"
          by (rule fuelOk_mono) (use l in simp)
      qed
      then show ?thesis using ConcatLoop Some by simp
    qed
  next
    case ParseAdd
    have "fuelOk (case descend n f ParseMul ts of Inl e \<Rightarrow> Inl e
                  | Inr (node, rest) \<Rightarrow> descend n f (AddLoop node) rest) ts ParseAdd"
    proof (rule bind_ok)
      show "fuelOk (descend n f ParseMul ts) ts ParseMul"
        using Suc.prems ParseAdd by (intro IH) simp
    next
      fix node :: ast and rest :: "token list"
      assume "length rest + slack ParseMul \<le> length ts"
      then have l: "length rest + 1 \<le> length ts" by simp
      have "fuelOk (descend n f (AddLoop node) rest) rest (AddLoop node)"
        using Suc.prems ParseAdd l by (intro IH) simp
      then show "fuelOk (descend n f (AddLoop node) rest) ts ParseAdd"
        by (rule fuelOk_mono) (use l in simp)
    qed
    then show ?thesis using ParseAdd by simp
  next
    case (AddLoop node)
    show ?thesis
    proof (cases "peekOp [''+'', ''-''] ts")
      case False
      then show ?thesis using AddLoop by simp
    next
      case True
      from peekOp_length[OF True] obtain k where len: "length ts = Suc k" by auto
      have "fuelOk (case descend n f ParseMul (tl ts) of Inl e \<Rightarrow> Inl e
                    | Inr (right, rest) \<Rightarrow>
                        descend n f (AddLoop (BinNode (tvalue (hd ts)) node right)) rest)
              ts (AddLoop node)"
      proof (rule bind_ok)
        show "fuelOk (descend n f ParseMul (tl ts)) (tl ts) ParseMul"
          using Suc.prems AddLoop len by (intro IH) simp
      next
        fix right :: ast and rest :: "token list"
        assume "length rest + slack ParseMul \<le> length (tl ts)"
        then have l: "length rest + 2 \<le> length ts" using len by simp
        have "fuelOk (descend n f (AddLoop (BinNode (tvalue (hd ts)) node right)) rest) rest
                (AddLoop (BinNode (tvalue (hd ts)) node right))"
          using Suc.prems AddLoop l by (intro IH) simp
        then show "fuelOk (descend n f (AddLoop (BinNode (tvalue (hd ts)) node right)) rest)
                     ts (AddLoop node)"
          by (rule fuelOk_mono) (use l in simp)
      qed
      then show ?thesis using AddLoop True by simp
    qed
  next
    case ParseMul
    have "fuelOk (case descend n f ParseUnary ts of Inl e \<Rightarrow> Inl e
                  | Inr (node, rest) \<Rightarrow> descend n f (MulLoop node) rest) ts ParseMul"
    proof (rule bind_ok)
      show "fuelOk (descend n f ParseUnary ts) ts ParseUnary"
        using Suc.prems ParseMul by (intro IH) simp
    next
      fix node :: ast and rest :: "token list"
      assume "length rest + slack ParseUnary \<le> length ts"
      then have l: "length rest + 1 \<le> length ts" by simp
      have "fuelOk (descend n f (MulLoop node) rest) rest (MulLoop node)"
        using Suc.prems ParseMul l by (intro IH) simp
      then show "fuelOk (descend n f (MulLoop node) rest) ts ParseMul"
        by (rule fuelOk_mono) (use l in simp)
    qed
    then show ?thesis using ParseMul by simp
  next
    case (MulLoop node)
    show ?thesis
    proof (cases "peekOp [''*'', ''/''] ts")
      case False
      then show ?thesis using MulLoop by simp
    next
      case True
      from peekOp_length[OF True] obtain k where len: "length ts = Suc k" by auto
      have "fuelOk (case descend n f ParseUnary (tl ts) of Inl e \<Rightarrow> Inl e
                    | Inr (right, rest) \<Rightarrow>
                        descend n f (MulLoop (BinNode (tvalue (hd ts)) node right)) rest)
              ts (MulLoop node)"
      proof (rule bind_ok)
        show "fuelOk (descend n f ParseUnary (tl ts)) (tl ts) ParseUnary"
          using Suc.prems MulLoop len by (intro IH) simp
      next
        fix right :: ast and rest :: "token list"
        assume "length rest + slack ParseUnary \<le> length (tl ts)"
        then have l: "length rest + 2 \<le> length ts" using len by simp
        have "fuelOk (descend n f (MulLoop (BinNode (tvalue (hd ts)) node right)) rest) rest
                (MulLoop (BinNode (tvalue (hd ts)) node right))"
          using Suc.prems MulLoop l by (intro IH) simp
        then show "fuelOk (descend n f (MulLoop (BinNode (tvalue (hd ts)) node right)) rest)
                     ts (MulLoop node)"
          by (rule fuelOk_mono) (use l in simp)
      qed
      then show ?thesis using MulLoop True by simp
    qed
  next
    case ParseUnary
    show ?thesis
    proof (cases "peekOp [''+'', ''-''] ts")
      case False
      have "fuelOk (descend n f ParsePrimary ts) ts ParsePrimary"
        using Suc.prems ParseUnary by (intro IH) simp
      then have "fuelOk (descend n f ParsePrimary ts) ts ParseUnary"
        by (rule fuelOk_mono) simp
      then show ?thesis using ParseUnary False by simp
    next
      case True
      from peekOp_length[OF True] obtain k where len: "length ts = Suc k" by auto
      have "fuelOk (case descend n f ParseUnary (tl ts) of Inl e \<Rightarrow> Inl e
                    | Inr (expr, rest) \<Rightarrow> Inr (UnaryNode (tvalue (hd ts)) expr, rest))
              ts ParseUnary"
      proof (rule bind_ok)
        show "fuelOk (descend n f ParseUnary (tl ts)) (tl ts) ParseUnary"
          using Suc.prems ParseUnary len by (intro IH) simp
      next
        fix expr :: ast and rest :: "token list"
        assume "length rest + slack ParseUnary \<le> length (tl ts)"
        then show "fuelOk (Inr (UnaryNode (tvalue (hd ts)) expr, rest)) ts ParseUnary"
          using len by simp
      qed
      then show ?thesis using ParseUnary True by simp
    qed
  next
    case ParsePrimary
    show ?thesis
    proof (cases ts)
      case Nil
      then show ?thesis using ParsePrimary by simp
    next
      case (Cons t rest)
      show ?thesis
      proof (cases "acceptOp ''('' ts")
        case (Some ts1)
        note len = acceptOp_length[OF Some]
        have "fuelOk (case descend n f ParseExpr ts1 of Inl e \<Rightarrow> Inl e
                      | Inr (e, ts2) \<Rightarrow>
                          (case acceptOp '')'' ts2 of
                             Some ts3 \<Rightarrow> Inr (e, ts3)
                           | None \<Rightarrow> Inl (ExpectedOp '')'' f)))
                ts ParsePrimary"
        proof (rule bind_ok)
          show "fuelOk (descend n f ParseExpr ts1) ts1 ParseExpr"
            using Suc.prems ParsePrimary len by (intro IH) simp
        next
          fix e :: ast and ts2 :: "token list"
          assume "length ts2 + slack ParseExpr \<le> length ts1"
          then show "fuelOk (case acceptOp '')'' ts2 of
                               Some ts3 \<Rightarrow> Inr (e, ts3)
                             | None \<Rightarrow> Inl (ExpectedOp '')'' f)) ts ParsePrimary"
            using len by (cases "acceptOp '')'' ts2") (auto dest: acceptOp_length)
        qed
        then show ?thesis using ParsePrimary Cons Some by simp
      next
        case None
        note open_none = None
        show ?thesis
        proof (cases "ttype t")
          case TNumber
          then show ?thesis using ParsePrimary Cons open_none by simp
        next
          case TString
          then show ?thesis using ParsePrimary Cons open_none by simp
        next
          case TOp
          then show ?thesis using ParsePrimary Cons open_none by simp
        next
          case TIdent
          show ?thesis
          proof (cases "acceptOp ''('' rest")
            case (Some ts1)
            note l1 = acceptOp_length[OF Some]
            show ?thesis
            proof (cases "acceptOp '')'' ts1")
              case close: (Some ts2)
              have "length ts2 + 1 \<le> length ts" using acceptOp_length[OF close] l1 Cons by simp
              then show ?thesis using ParsePrimary Cons open_none TIdent Some close by simp
            next
              case None
              have l: "length ts1 + 2 = length ts" using l1 Cons by simp
              have "fuelOk (descend n f (ArgsLoop (toUpperCase (tvalue t)) []) ts1) ts1
                      (ArgsLoop (toUpperCase (tvalue t)) [])"
                using Suc.prems ParsePrimary l by (intro IH) simp
              then have "fuelOk (descend n f (ArgsLoop (toUpperCase (tvalue t)) []) ts1) ts ParsePrimary"
                by (rule fuelOk_mono) (use l in simp)
              then show ?thesis using ParsePrimary Cons open_none TIdent Some None by simp
            qed
          next
            case None
            show ?thesis
            proof (cases "peekOp ['':''] rest")
              case False
              then show ?thesis using ParsePrimary Cons open_none TIdent None by simp
            next
              case True
              show ?thesis
              proof (cases "tl rest")
                case Nil
                then show ?thesis using ParsePrimary Cons open_none TIdent None True by simp
              next
                case tl: (Cons t2 ts2)
                from peekOp_length[OF True] obtain k where "length rest = Suc k" by auto
                then have "length ts2 + 1 \<le> length ts" using tl Cons
                  by (cases rest) auto
                then show ?thesis using ParsePrimary Cons open_none TIdent None True tl by simp
              qed
            qed
          qed
        qed
      qed
    qed
  next
    case (ArgsLoop ident args)
    have "fuelOk (case descend n f ParseExpr ts of Inl e \<Rightarrow> Inl e
                  | Inr (a, ts1) \<Rightarrow>
                      (case acceptOp '')'' ts1 of
                         Some ts2 \<Rightarrow> Inr (CallNode ident (args @ [a]), ts2)
                       | None \<Rightarrow>
                           (case acceptOp '','' ts1 of
                              Some ts2 \<Rightarrow> descend n f (ArgsLoop ident (args @ [a])) ts2
                            | None \<Rightarrow> Inl (ExpectedOp '','' f))))
            ts (ArgsLoop ident args)"
    proof (rule bind_ok)
      show "fuelOk (descend n f ParseExpr ts) ts ParseExpr"
        using Suc.prems ArgsLoop by (intro IH) simp
    next
      fix a :: ast and ts1 :: "token list"
      assume "length ts1 + slack ParseExpr \<le> length ts"
      then have l: "length ts1 + 1 \<le> length ts" by simp
      show "fuelOk (case acceptOp '')'' ts1 of
                      Some ts2 \<Rightarrow> Inr (CallNode ident (args @ [a]), ts2)
                    | None \<Rightarrow>
                        (case acceptOp '','' ts1 of
                           Some ts2 \<Rightarrow> descend n f (ArgsLoop ident (args @ [a])) ts2
                         | None \<Rightarrow> Inl (ExpectedOp '','' f)))
              ts (ArgsLoop ident args)"
      proof (cases "acceptOp '')'' ts1")
        case (Some ts2)
        then show ?thesis using l acceptOp_length[OF Some] by simp
      next
        case None
        show ?thesis
        proof (cases "acceptOp '','' ts1")
          case n2: None
          then show ?thesis using None by simp
        next
          case (Some ts2)
          have l2: "length ts2 + 2 \<le> length ts" using l acceptOp_length[OF Some] by simp
          have "fuelOk (descend n f (ArgsLoop ident (args @ [a])) ts2) ts2
                  (ArgsLoop ident (args @ [a]))"
            using Suc.prems ArgsLoop l2 by (intro IH) simp
          then have "fuelOk (descend n f (ArgsLoop ident (args @ [a])) ts2) ts (ArgsLoop ident args)"
            by (rule fuelOk_mono) (use l2 in simp)
          then show ?thesis using None Some by simp
        qed
      qed
    qed
    then show ?thesis using ArgsLoop by simp
  qed
qed

lemma tokenize_loop_error:
  "tokenize_loop formula s tokens = Inl e \<Longrightarrow> \<exists>ch. e = UnexpectedChar ch formula"
proof (induction formula s tokens rule: tokenize_loop.induct)
  case (1 formula tokens)
  then show ?case by (simp add: tokenize_loop.simps)
next
  case (2 formula ch rest tokens)
  from "2.prems" show ?case
    by (subst (asm) tokenize_loop.simps(2)) (use "2.IH" in \<open>auto split: if_splits\<close>)
qed

lemma parse_fuel_suffices: "parse formula \<noteq> Inl FuelExhausted"
proof (cases "tokenize formula")
  case (Inl e)
  then have "e \<noteq> FuelExhausted" using tokenize_loop_error by (fastforce simp: tokenize_def)
  then show ?thesis using Inl by (simp add: parse_def)
next
  case (Inr tokens)
  have "fuelOk (descend (12 * length tokens + 12) formula ParseExpr tokens) tokens ParseExpr"
    by (rule descend_fuel) simp
  then show ?thesis using Inr
    by (auto simp: parse_def fuelOk_def split: sum.splits prod.splits)
qed

section \<open>The evaluator\<close>

text \<open>
  A cell of the document has a stored value \<^verbatim>\<open>v\<close> and, for a formula cell, the text
  \<^verbatim>\<open>f\<close> of its formula. The document, \<^verbatim>\<open>sheetModel.cells\<close>, lists the cells by their
  references; a lookup finds the first cell listed under a reference. The evaluator
  looks up normalized references only, which have no small letter and so are not the
  name of a property that every JavaScript object inherits.

  The class \<^verbatim>\<open>SheetEvaluator\<close> holds the document and the overrides, which evaluation
  only reads, and the two caches, which it fills: these are the session that every
  function below takes and returns, also when it fails.
\<close>

record cell =
  cell_v :: jsval
  cell_f :: "string option"

record sheetModel =
  cells :: "(string \<times> cell) list"

record session =
  cache :: "string \<rightharpoonup> jsval"
  astCache :: "string \<rightharpoonup> ast"

definition lookupCell :: "sheetModel \<Rightarrow> string \<Rightarrow> string \<Rightarrow> cell option" where
  "lookupCell sm nref ref =
     (case map_of (cells sm) nref of Some c \<Rightarrow> Some c | None \<Rightarrow> map_of (cells sm) ref)"

definition getCellRaw :: "sheetModel \<Rightarrow> (string \<rightharpoonup> jsval) \<Rightarrow> string \<Rightarrow> jsval" where
  "getCellRaw sm overrides ref =
     (let nref = normalizeRef ref
      in case overrides nref of
           Some x \<Rightarrow> x
         | None \<Rightarrow> (case lookupCell sm nref ref of Some c \<Rightarrow> cell_v c | None \<Rightarrow> VNull))"

definition getCellFormula :: "sheetModel \<Rightarrow> string \<Rightarrow> string option" where
  "getCellFormula sm ref =
     (let nref = normalizeRef ref
      in case lookupCell sm nref ref of Some c \<Rightarrow> cell_f c | None \<Rightarrow> None)"

text \<open>The tree of a formula, parsed once for each text: \<^verbatim>\<open>astCache\<close>.\<close>

definition getAst :: "string \<Rightarrow> session \<Rightarrow> (error + ast) \<times> session" where
  "getAst fm st =
     (case astCache st fm of
        Some a \<Rightarrow> (Inr a, st)
      | None \<Rightarrow>
          (case parse fm of
             Inl e \<Rightarrow> (Inl e, st)
           | Inr a \<Rightarrow> (Inr a, st\<lparr>astCache := (astCache st)(fm \<mapsto> a)\<rparr>)))"

text \<open>The operators of a \<^verbatim>\<open>bin\<close> and of a \<^verbatim>\<open>unary\<close> node, on the values of the operands.\<close>

definition binOp :: "string \<Rightarrow> jsval \<Rightarrow> jsval \<Rightarrow> jsval" where
  "binOp op l r =
     (if op = ''&'' then VStr (toText l @ toText r)
      else if op = ''+'' then VNum (jsadd (toNumber l) (toNumber r))
      else if op = ''-'' then VNum (jssub (toNumber l) (toNumber r))
      else if op = ''*'' then VNum (jsmul (toNumber l) (toNumber r))
      else if op = ''/'' then VNum (jsdiv (toNumber l) (toNumber r))
      else if op = ''='' then VBool (toText l = toText r)
      else if op = ''<>'' then VBool (toText l \<noteq> toText r)
      else if op = ''<'' then VBool (jslt (toNumber l) (toNumber r))
      else if op = ''>'' then VBool (jslt (toNumber r) (toNumber l))
      else if op = ''<='' then VBool (jsle (toNumber l) (toNumber r))
      else if op = ''>='' then VBool (jsle (toNumber r) (toNumber l))
      else VStr [])"

definition unaryOp :: "string \<Rightarrow> jsval \<Rightarrow> jsval" where
  "unaryOp op x =
     (if op = ''+'' then VNum (toNumber x)
      else if op = ''-'' then VNum (jsneg (toNumber x))
      else VNum (Fin 0))"

text \<open>One step of \<^verbatim>\<open>SUM\<close>: an array adds each of its elements, another value itself.\<close>

definition addValue :: "jsnum \<Rightarrow> jsval \<Rightarrow> jsnum" where
  "addValue acc x =
     (case x of
        VArr xs \<Rightarrow> foldl (\<lambda>s y. jsadd s (toNumber y)) acc xs
      | _ \<Rightarrow> jsadd acc (toNumber x))"

text \<open>\<^verbatim>\<open>isNumberLike(v) ? Number(v) : (v ?? "")\<close>.\<close>

definition rawResult :: "jsval \<Rightarrow> jsval" where
  "rawResult x =
     (if isNumberLike x then VNum (jsNumberOf x)
      else if x = VNull \<or> x = VUndefined then VStr [] else x)"

text \<open>
  Evaluation ends because a formula cell is evaluated only while it is not on the
  stack, and those cells are cells of the document: the stack grows by a reference
  that normalization leaves as it is.
\<close>

lemma of_char_toUpperChar:
  "(of_char (toUpperChar c) :: nat) = (if isLowerAZ c then of_char c - 32 else of_char c)"
proof -
  have "(of_char c :: nat) < 256" by simp
  then have "(of_char c :: nat) - 32 < 256" by arith
  then have "((of_char c :: nat) - 32) mod 256 = of_char c - 32" by (rule mod_less)
  then show ?thesis by (simp add: toUpperChar_def)
qed

lemma toUpperChar_not_lower: "\<not> isLowerAZ (toUpperChar c)"
proof (cases "isLowerAZ c")
  case True
  then have "(of_char (toUpperChar c) :: nat) = of_char c - 32"
    by (simp add: of_char_toUpperChar)
  moreover have "(of_char c :: nat) \<le> 122" using True by (simp add: isLowerAZ_def)
  ultimately have "(of_char (toUpperChar c) :: nat) < 97" by arith
  then show ?thesis by (simp add: isLowerAZ_def)
next
  case False
  then show ?thesis by (simp add: toUpperChar_def)
qed

lemma toUpperChar_idem: "toUpperChar (toUpperChar c) = toUpperChar c"
  using toUpperChar_not_lower[of c] by (simp add: toUpperChar_def[of "toUpperChar c"])

lemma toUpperChar_dollar: "toUpperChar c = CHR ''$'' \<longleftrightarrow> c = CHR ''$''"
proof (cases "isLowerAZ c")
  case True
  then have "(of_char (toUpperChar c) :: nat) = of_char c - 32"
    by (simp add: of_char_toUpperChar)
  moreover have "97 \<le> (of_char c :: nat)" using True by (simp add: isLowerAZ_def)
  ultimately have "(of_char (toUpperChar c) :: nat) \<noteq> 36" by arith
  then have "toUpperChar c \<noteq> CHR ''$''" by auto
  moreover have "c \<noteq> CHR ''$''" using True by (auto simp: isLowerAZ_def)
  ultimately show ?thesis by simp
next
  case False
  then show ?thesis by (simp add: toUpperChar_def)
qed

lemma normalizeRef_idem: "normalizeRef (normalizeRef ref) = normalizeRef ref"
proof -
  have "filter (\<lambda>c. c \<noteq> CHR ''$'') (map toUpperChar xs) =
        map toUpperChar (filter (\<lambda>c. c \<noteq> CHR ''$'') xs)" for xs
    by (induction xs) (simp_all add: toUpperChar_dollar)
  then show ?thesis
    by (simp add: normalizeRef_def toUpperCase_def toUpperChar_idem)
qed

lemma formula_cell_key:
  assumes "getCellFormula sm (normalizeRef ref) = Some fm"
  shows "normalizeRef ref \<in> fst ` set (cells sm)"
proof -
  from assms obtain c where "map_of (cells sm) (normalizeRef ref) = Some c"
    by (auto simp: getCellFormula_def lookupCell_def normalizeRef_idem split: option.splits)
  then show ?thesis by (metis map_of_SomeD fst_conv image_eqI)
qed

lemma stack_measure:
  assumes "getCellFormula sm (normalizeRef ref) = Some fm"
    and "normalizeRef ref \<notin> set stack"
  shows "card (fst ` set (cells sm) - insert (normalizeRef ref) (set stack))
         < card (fst ` set (cells sm) - set stack)"
proof -
  let ?K = "fst ` set (cells sm)"
  have k: "normalizeRef ref \<in> ?K - set stack"
    using formula_cell_key[OF assms(1)] assms(2) by simp
  have "?K - insert (normalizeRef ref) (set stack) = (?K - set stack) - {normalizeRef ref}"
    by auto
  moreover have "finite (?K - set stack)" by simp
  ultimately show ?thesis using k by (metis card_Diff1_less)
qed

text \<open>
  The order in which the calls of the evaluator decrease: the cells of the document
  that are not on the stack, then the function that is called, then the size of the
  node or the list it works on.
\<close>

definition evalMeasure ::
  "(sheetModel \<times> (string \<rightharpoonup> jsval) \<times> string \<times> string list \<times> session
    + sheetModel \<times> (string \<rightharpoonup> jsval) \<times> ast \<times> string list \<times> session)
   + (sheetModel \<times> (string \<rightharpoonup> jsval) \<times> string list \<times> string list \<times> session
    + sheetModel \<times> (string \<rightharpoonup> jsval) \<times> ast list \<times> string list \<times> jsnum \<times> session)
   \<Rightarrow> nat \<times> nat \<times> nat" where
  "evalMeasure x =
     (case x of
        Inl (Inl (sm, ov, ref, stack, st)) \<Rightarrow>
          (card (fst ` set (cells sm) - set stack), 0, 0)
      | Inl (Inr (sm, ov, node, stack, st)) \<Rightarrow>
          (card (fst ` set (cells sm) - set stack), 2, size node)
      | Inr (Inl (sm, ov, refs, stack, st)) \<Rightarrow>
          (card (fst ` set (cells sm) - set stack), 1, length refs)
      | Inr (Inr (sm, ov, args, stack, acc, st)) \<Rightarrow>
          (card (fst ` set (cells sm) - set stack), 2, size_list size args))"

text \<open>
  \<^verbatim>\<open>evalCell\<close> and \<^verbatim>\<open>evalAst\<close>; \<open>evalRefs\<close> is the \<^verbatim>\<open>map\<close> over the references of a range
  and \<open>evalSum\<close> the loop of \<^verbatim>\<open>SUM\<close> over its arguments, with the sum so far. An
  argument that a call does not have is \<^verbatim>\<open>undefined\<close>, whose evaluation fails with
  \<open>TypeError\<close>.
\<close>

function evalCell :: "sheetModel \<Rightarrow> (string \<rightharpoonup> jsval) \<Rightarrow> string \<Rightarrow> string list \<Rightarrow> session
                        \<Rightarrow> (error + jsval) \<times> session"
  and evalAst :: "sheetModel \<Rightarrow> (string \<rightharpoonup> jsval) \<Rightarrow> ast \<Rightarrow> string list \<Rightarrow> session
                        \<Rightarrow> (error + jsval) \<times> session"
  and evalRefs :: "sheetModel \<Rightarrow> (string \<rightharpoonup> jsval) \<Rightarrow> string list \<Rightarrow> string list \<Rightarrow> session
                        \<Rightarrow> (error + jsval list) \<times> session"
  and evalSum :: "sheetModel \<Rightarrow> (string \<rightharpoonup> jsval) \<Rightarrow> ast list \<Rightarrow> string list \<Rightarrow> jsnum
                        \<Rightarrow> session \<Rightarrow> (error + jsnum) \<times> session"
where
  "evalCell sm overrides ref stack st =
     (case cache st (normalizeRef ref) of
        Some x \<Rightarrow> (Inr x, st)
      | None \<Rightarrow>
          if normalizeRef ref \<in> set stack then (Inr (VStr []), st)
          else
            (case getCellFormula sm (normalizeRef ref) of
               None \<Rightarrow>
                 (Inr (rawResult (getCellRaw sm overrides (normalizeRef ref))),
                  st\<lparr>cache := (cache st)(normalizeRef ref \<mapsto>
                          rawResult (getCellRaw sm overrides (normalizeRef ref)))\<rparr>)
             | Some fm \<Rightarrow>
                 if fm = []
                 then (Inr (rawResult (getCellRaw sm overrides (normalizeRef ref))),
                       st\<lparr>cache := (cache st)(normalizeRef ref \<mapsto>
                               rawResult (getCellRaw sm overrides (normalizeRef ref)))\<rparr>)
                 else
                   (case getAst fm st of
                      (Inl e, st1) \<Rightarrow> (Inl e, st1)
                    | (Inr a, st1) \<Rightarrow>
                        (case evalAst sm overrides a (stack @ [normalizeRef ref]) st1 of
                           (Inl e, st2) \<Rightarrow> (Inl e, st2)
                         | (Inr out, st2) \<Rightarrow>
                             (Inr out, st2\<lparr>cache := (cache st2)(normalizeRef ref \<mapsto> out)\<rparr>)))))"
| "evalAst sm overrides (NumNode n) stack st = (Inr (VNum n), st)"
| "evalAst sm overrides (StrNode s) stack st = (Inr (VStr s), st)"
| "evalAst sm overrides (CellNode ref) stack st = evalCell sm overrides ref stack st"
| "evalAst sm overrides (RangeNode ref) stack st =
     (case expandRange ref of
        Inl e \<Rightarrow> (Inl e, st)
      | Inr refs \<Rightarrow>
          (case evalRefs sm overrides refs stack st of
             (Inl e, st1) \<Rightarrow> (Inl e, st1)
           | (Inr xs, st1) \<Rightarrow> (Inr (VArr xs), st1)))"
| "evalAst sm overrides (NameNode name) stack st = (Inr (VStr []), st)"
| "evalAst sm overrides (UnaryNode op expr) stack st =
     (case evalAst sm overrides expr stack st of
        (Inl e, st1) \<Rightarrow> (Inl e, st1)
      | (Inr x, st1) \<Rightarrow> (Inr (unaryOp op x), st1))"
| "evalAst sm overrides (BinNode op left right) stack st =
     (case evalAst sm overrides left stack st of
        (Inl e, st1) \<Rightarrow> (Inl e, st1)
      | (Inr l, st1) \<Rightarrow>
          (case evalAst sm overrides right stack st1 of
             (Inl e, st2) \<Rightarrow> (Inl e, st2)
           | (Inr r, st2) \<Rightarrow> (Inr (binOp op l r), st2)))"
| "evalAst sm overrides (CallNode name args) stack st =
     (if name = ''IF''
      then (case args of
              [] \<Rightarrow> (Inl TypeError, st)
            | c # branches \<Rightarrow>
                (case evalAst sm overrides c stack st of
                   (Inl e, st1) \<Rightarrow> (Inl e, st1)
                 | (Inr cond, st1) \<Rightarrow>
                     if truthyExcel cond
                     then (case branches of
                             [] \<Rightarrow> (Inl TypeError, st1)
                           | t # _ \<Rightarrow> evalAst sm overrides t stack st1)
                     else (case branches of
                             t # e # _ \<Rightarrow> evalAst sm overrides e stack st1
                           | _ \<Rightarrow> evalAst sm overrides (StrNode []) stack st1)))
      else if name = ''SUM''
      then (case evalSum sm overrides args stack (Fin 0) st of
              (Inl e, st1) \<Rightarrow> (Inl e, st1)
            | (Inr acc, st1) \<Rightarrow> (Inr (VNum acc), st1))
      else if name = ''TRIM''
      then (case args of
              [] \<Rightarrow> (Inl TypeError, st)
            | a # _ \<Rightarrow>
                (case evalAst sm overrides a stack st of
                   (Inl e, st1) \<Rightarrow> (Inl e, st1)
                 | (Inr x, st1) \<Rightarrow> (Inr (VStr (trimExcel x)), st1)))
      else (Inr (VStr []), st))"
| "evalRefs sm overrides [] stack st = (Inr [], st)"
| "evalRefs sm overrides (r # rs) stack st =
     (case evalCell sm overrides r stack st of
        (Inl e, st1) \<Rightarrow> (Inl e, st1)
      | (Inr x, st1) \<Rightarrow>
          (case evalRefs sm overrides rs stack st1 of
             (Inl e, st2) \<Rightarrow> (Inl e, st2)
           | (Inr xs, st2) \<Rightarrow> (Inr (x # xs), st2)))"
| "evalSum sm overrides [] stack acc st = (Inr acc, st)"
| "evalSum sm overrides (arg # args) stack acc st =
     (case evalAst sm overrides arg stack st of
        (Inl e, st1) \<Rightarrow> (Inl e, st1)
      | (Inr x, st1) \<Rightarrow> evalSum sm overrides args stack (addValue acc x) st1)"
  by pat_completeness auto

termination
proof (relation "inv_image (less_than <*lex*> less_than <*lex*> less_than) evalMeasure")
  show "wf (inv_image (less_than <*lex*> less_than <*lex*> less_than) evalMeasure)"
    by (intro wf_inv_image wf_lex_prod wf_less_than)
qed (auto simp: evalMeasure_def stack_measure)

declare evalCell.simps [simp del]

text \<open>
  The constructor normalizes the keys of the overrides, a later entry replacing an
  earlier one of the same key, and starts with empty caches. \<open>evaluateCell\<close> is the
  call \<^verbatim>\<open>evalCell(ref)\<close> of the rendering layer, with the empty stack.
\<close>

record evaluator =
  sheetModel :: sheetModel
  overrides :: "string \<rightharpoonup> jsval"
  session :: session

definition SheetEvaluator :: "sheetModel \<Rightarrow> (string \<times> jsval) list \<Rightarrow> evaluator" where
  "SheetEvaluator sm entries =
     \<lparr>sheetModel = sm,
      overrides = map_of (rev (map (\<lambda>(k, x). (normalizeRef k, x)) entries)),
      session = \<lparr>cache = Map.empty, astCache = Map.empty\<rparr>\<rparr>"

definition evaluateCell :: "evaluator \<Rightarrow> string \<Rightarrow> (error + jsval) \<times> evaluator" where
  "evaluateCell ev ref =
     (case evalCell (sheetModel ev) (overrides ev) ref [] (session ev) of
        (res, st) \<Rightarrow> (res, ev\<lparr>session := st\<rparr>))"

text \<open>
  A sheet for the examples: \<open>A1\<close> holds the formula, \<open>B1\<close> the number 2 and \<open>C1\<close> the
  text \<open>x\<close>. \<open>formulaValue\<close> is the value of \<open>A1\<close> in a fresh evaluator without
  overrides.
\<close>

definition formulaSheet :: "string \<Rightarrow> sheetModel" where
  "formulaSheet fm =
     \<lparr>cells = [(''A1'', \<lparr>cell_v = VNull, cell_f = Some fm\<rparr>),
               (''B1'', \<lparr>cell_v = VNum (Fin 2), cell_f = None\<rparr>),
               (''C1'', \<lparr>cell_v = VStr ''x'', cell_f = None\<rparr>)]\<rparr>"

definition formulaValue :: "string \<Rightarrow> error + jsval" where
  "formulaValue fm = fst (evaluateCell (SheetEvaluator (formulaSheet fm) []) ''A1'')"

section \<open>Sessions of an evaluator\<close>

text \<open>
  What holds of the cache in a fresh session and after every evaluation: a reference
  that is in neither the cell table nor the overrides is cached, if at all, with the
  empty text.
\<close>

definition blankAbsent :: "sheetModel \<Rightarrow> (string \<rightharpoonup> jsval) \<Rightarrow> session \<Rightarrow> bool" where
  "blankAbsent sm ov st =
     (\<forall>k. map_of (cells sm) k = None \<and> ov k = None \<longrightarrow>
          cache st k = None \<or> cache st k = Some (VStr []))"

section \<open>Shapes of the specification\<close>


text \<open>
  The text of a number token: digits and points, the first character a digit, or a
  point with a digit after it.
\<close>

definition numberText :: "string \<Rightarrow> bool" where
  "numberText s =
     (s \<noteq> [] \<and> list_all isNumberChar s \<and>
      (isDigit (hd s) \<or> (hd s = CHR ''.'' \<and> 2 \<le> length s \<and> isDigit (hd (tl s)))))"

section \<open>Properties of the reference codec\<close>

subsection \<open>Column letters\<close>







subsection \<open>Range expansion\<close>





lemma colon_code: "c = CHR '':'' \<longleftrightarrow> (of_char c :: nat) = 58"
proof -
  have "(of_char (CHR '':'') :: nat) = 58" by simp
  then show ?thesis by (metis of_char_eq_iff)
qed







section \<open>Properties of the tokenizer\<close>

lemma numberText_token:
  assumes "isDigit ch \<or> (ch = CHR ''.'' \<and> rest \<noteq> [] \<and> isDigit (hd rest))"
  shows "numberText (ch # takeWhile isNumberChar rest)"
proof -
  have a: "list_all isNumberChar (ch # takeWhile isNumberChar rest)"
    using assms by (auto simp: list_all_iff isNumberChar_def dest: set_takeWhileD)
  show ?thesis
  proof (cases "isDigit ch")
    case True
    then show ?thesis using a by (simp add: numberText_def)
  next
    case False
    then have d: "ch = CHR ''.''" "rest \<noteq> []" "isDigit (hd rest)" using assms by auto
    then obtain x xs where r: "rest = x # xs" by (cases rest) auto
    with d have "isNumberChar x" by (simp add: isNumberChar_def)
    then have "takeWhile isNumberChar rest = x # takeWhile isNumberChar xs" using r by simp
    then show ?thesis using a d r by (simp add: numberText_def)
  qed
qed

lemma tokenize_loop_numbers:
  assumes "tokenize_loop formula s tokens = Inr ts"
    and "\<forall>t\<in>set tokens. ttype t = TNumber \<longrightarrow> numberText (tvalue t)"
  shows "\<forall>t\<in>set ts. ttype t = TNumber \<longrightarrow> numberText (tvalue t)"
  using assms
proof (induction formula s tokens arbitrary: ts rule: tokenize_loop.induct)
  case (1 formula tokens)
  then show ?case by (simp add: tokenize_loop.simps)
next
  case (2 formula ch rest tokens)
  let ?P = "\<lambda>t. ttype t = TNumber \<longrightarrow> numberText (tvalue t)"
  have acc: "\<forall>t\<in>set (tokens @ [tok]). ?P t" if "?P tok" for tok
    using "2.prems"(2) that by auto
  note eq = "2.prems"(1)[unfolded tokenize_loop.simps(2)[of formula ch rest tokens]]
  show ?case
  proof (cases "isSpace ch")
    case True
    then have "tokenize_loop formula rest tokens = Inr ts"
      using eq by (simp only: True if_True)
    then show ?thesis using "2.prems"(2) by (rule "2.IH"(1)[OF True])
  next
    case sp: False
    show ?thesis
    proof (cases "ch = CHR 0x22")
      case True
      then have "tokenize_loop formula (snd (scanString rest))
                   (tokens @ [Token TString (fst (scanString rest))]) = Inr ts"
        using eq sp True by simp
      moreover have "\<forall>t\<in>set (tokens @ [Token TString (fst (scanString rest))]). ?P t"
        by (rule acc) simp
      ultimately show ?thesis by (rule "2.IH"(2)[OF sp True])
    next
      case q: False
      show ?thesis
      proof (cases "take 2 (ch # rest) \<in> set [''<>'', ''<='', ''>='']")
        case True
        then have "tokenize_loop formula (drop 1 rest)
                     (tokens @ [Token TOp (take 2 (ch # rest))]) = Inr ts"
          using eq by (simp only: sp q True if_False if_True)
        moreover have "\<forall>t\<in>set (tokens @ [Token TOp (take 2 (ch # rest))]). ?P t"
          by (rule acc) simp
        ultimately show ?thesis by (rule "2.IH"(3)[OF sp q True])
      next
        case two: False
        show ?thesis
        proof (cases "isOpChar ch")
          case True
          then have "tokenize_loop formula rest (tokens @ [Token TOp [ch]]) = Inr ts"
            using eq by (simp only: sp q two True if_False if_True)
          moreover have "\<forall>t\<in>set (tokens @ [Token TOp [ch]]). ?P t"
            by (rule acc) simp
          ultimately show ?thesis by (rule "2.IH"(4)[OF sp q two True])
        next
          case op: False
          show ?thesis
          proof (cases "isDigit ch \<or> (ch = CHR ''.'' \<and> rest \<noteq> [] \<and> isDigit (hd rest))")
            case True
            then have "tokenize_loop formula (dropWhile isNumberChar rest)
                         (tokens @ [Token TNumber (ch # takeWhile isNumberChar rest)]) = Inr ts"
              using eq by (simp only: sp q two op True if_False if_True)
            moreover have "\<forall>t\<in>set (tokens @ [Token TNumber (ch # takeWhile isNumberChar rest)]). ?P t"
              using numberText_token[OF True] by (intro acc) simp
            ultimately show ?thesis by (rule "2.IH"(5)[OF sp q two op True])
          next
            case num: False
            show ?thesis
            proof (cases "isIdentStart ch")
              case True
              then have "tokenize_loop formula (dropWhile isIdentChar rest)
                           (tokens @ [Token TIdent (ch # takeWhile isIdentChar rest)]) = Inr ts"
                using eq by (simp only: sp q two op num True if_False if_True)
              moreover have "\<forall>t\<in>set (tokens @ [Token TIdent (ch # takeWhile isIdentChar rest)]). ?P t"
                by (rule acc) simp
              ultimately show ?thesis by (rule "2.IH"(6)[OF sp q two op num True])
            next
              case False
              then have "Inl (UnexpectedChar ch formula) = Inr ts"
                using eq by (simp only: sp q two op num if_False)
              then show ?thesis by simp
            qed
          qed
        qed
      qed
    qed
  qed
qed

text \<open>
  Claim C7, as the code has it. Every number token of every formula is a non-empty
  text of digits and points whose first character is a digit, or a point with a digit
  right after it: a leading point starts a number only before a digit. The number of
  points is not bounded: the loop of the tokenizer takes every digit and every point
  that follows.
\<close>

theorem number_token_shape:
  assumes "tokenize formula = Inr ts" and "t \<in> set ts" and "ttype t = TNumber"
  shows "numberText (tvalue t)"
  using tokenize_loop_numbers[of formula "trim formula" "[]" ts] assms
  by (simp add: tokenize_def)

theorem number_token_shape_witness:
  "tokenize ''.5+A1'' = Inr [Token TNumber ''.5'', Token TOp ''+'', Token TIdent ''A1''] \<and>
   Token TNumber ''.5'' \<in> set [Token TNumber ''.5'', Token TOp ''+'', Token TIdent ''A1''] \<and>
   ttype (Token TNumber ''.5'') = TNumber \<and>
   numberText ''.5''"
proof -
  have t: "tokenize ''.5+A1'' = Inr [Token TNumber ''.5'', Token TOp ''+'', Token TIdent ''A1'']"
    by code_simp
  have m: "Token TNumber ''.5'' \<in> set [Token TNumber ''.5'', Token TOp ''+'', Token TIdent ''A1'']"
    by simp
  have k: "ttype (Token TNumber ''.5'') = TNumber" by simp
  from number_token_shape[OF t m k] have "numberText ''.5''" by simp
  with t m k show ?thesis by blast
qed

text \<open>A number token with two points: the formula \<open>1.2.3\<close> is one number token.\<close>

theorem number_token_two_points:
  "tokenize ''1.2.3'' = Inr [Token TNumber ''1.2.3''] \<and>
   length (filter (\<lambda>c. c = CHR ''.'') ''1.2.3'') = 2"
proof -
  have "tokenize ''1.2.3'' = Inr [Token TNumber ''1.2.3'']" by code_simp
  then show ?thesis by simp
qed

section \<open>Properties of normalization\<close>






section \<open>Properties of the evaluator\<close>


lemma getCellFormula_absent:
  assumes "map_of (cells sm) (normalizeRef ref) = None"
  shows "getCellFormula sm (normalizeRef ref) = None"
  using assms by (simp add: getCellFormula_def lookupCell_def normalizeRef_idem)

lemma getCellRaw_absent:
  assumes "map_of (cells sm) (normalizeRef ref) = None" and "ov (normalizeRef ref) = None"
  shows "getCellRaw sm ov (normalizeRef ref) = VNull"
  using assms by (simp add: getCellRaw_def lookupCell_def normalizeRef_idem)


lemma evalCell_no_formula:
  assumes "cache st (normalizeRef ref) = None"
    and "normalizeRef ref \<notin> set stack"
    and "getCellFormula sm (normalizeRef ref) = None \<or> getCellFormula sm (normalizeRef ref) = Some []"
  shows "evalCell sm ov ref stack st =
         (Inr (rawResult (getCellRaw sm ov (normalizeRef ref))),
          st\<lparr>cache := (cache st)(normalizeRef ref \<mapsto>
                  rawResult (getCellRaw sm ov (normalizeRef ref)))\<rparr>)"
  using assms by (subst evalCell.simps) auto

lemma getAst_blankAbsent:
  "getAst fm st = (res, st1) \<Longrightarrow> blankAbsent sm ov st \<Longrightarrow> blankAbsent sm ov st1"
  by (auto simp: getAst_def blankAbsent_def split: option.splits sum.splits)

lemma raw_absent:
  "map_of (cells sm) (normalizeRef ref) = None \<Longrightarrow> ov (normalizeRef ref) = None \<Longrightarrow>
   rawResult (getCellRaw sm ov (normalizeRef ref)) = VStr []"
  by (simp add: getCellRaw_def lookupCell_def normalizeRef_idem rawResult_def)

lemma blankAbsent_update_raw:
  "blankAbsent sm ov st \<Longrightarrow>
   blankAbsent sm ov (st\<lparr>cache := (cache st)(normalizeRef ref \<mapsto>
                        rawResult (getCellRaw sm ov (normalizeRef ref)))\<rparr>)"
  by (auto simp: blankAbsent_def raw_absent)

lemma blankAbsent_update_formula:
  assumes "blankAbsent sm ov st" and "getCellFormula sm (normalizeRef ref) = Some fm"
  shows "blankAbsent sm ov (st\<lparr>cache := (cache st)(normalizeRef ref \<mapsto> out)\<rparr>)"
proof -
  have "map_of (cells sm) (normalizeRef ref) \<noteq> None"
    using formula_cell_key[OF assms(2)] by (simp add: map_of_eq_None_iff)
  then show ?thesis using assms(1) by (auto simp: blankAbsent_def)
qed

lemma bind_blankAbsent:
  assumes "blankAbsent sm ov (snd p)"
    and "\<And>x s. p = (Inr x, s) \<Longrightarrow> blankAbsent sm ov (snd (k x s))"
  shows "blankAbsent sm ov (snd (case p of (Inl e, s) \<Rightarrow> (Inl e, s) | (Inr x, s) \<Rightarrow> k x s))"
proof (cases p)
  case (Pair r s)
  then show ?thesis using assms by (cases r) auto
qed

lemma eval_blankAbsent:
  "blankAbsent sm ov st \<Longrightarrow> blankAbsent sm ov (snd (evalCell sm ov ref stack st))"
  "blankAbsent sm ov st \<Longrightarrow> blankAbsent sm ov (snd (evalAst sm ov node stack st))"
  "blankAbsent sm ov st \<Longrightarrow> blankAbsent sm ov (snd (evalRefs sm ov refs stack st))"
  "blankAbsent sm ov st \<Longrightarrow> blankAbsent sm ov (snd (evalSum sm ov args stack acc st))"
proof (induction sm ov ref stack st and sm ov node stack st and sm ov refs stack st
         and sm ov args stack acc st rule: evalCell_evalAst_evalRefs_evalSum.induct)
  case (1 sm overrides ref stack st)
  show ?case
  proof (cases "cache st (normalizeRef ref)")
    case (Some x)
    then show ?thesis using "1.prems" by (subst evalCell.simps) simp
  next
    case None
    show ?thesis
    proof (cases "normalizeRef ref \<in> set stack")
      case True
      then show ?thesis using "1.prems" None by (subst evalCell.simps) simp
    next
      case False
      show ?thesis
      proof (cases "getCellFormula sm (normalizeRef ref)")
        case n: None
        then show ?thesis using "1.prems" None False
          by (subst evalCell.simps) (simp add: blankAbsent_update_raw)
      next
        case (Some fm)
        show ?thesis
        proof (cases "fm = []")
          case True
          then show ?thesis using "1.prems" None False Some
            by (subst evalCell.simps) (simp add: blankAbsent_update_raw)
        next
          case ne: False
          obtain res st1 where g: "getAst fm st = (res, st1)" by (cases "getAst fm st")
          have b1: "blankAbsent sm overrides st1" using getAst_blankAbsent[OF g "1.prems"] .
          show ?thesis
          proof (cases res)
            case (Inl e)
            then show ?thesis using None False Some ne g b1 by (subst evalCell.simps) simp
          next
            case (Inr a)
            have ih: "blankAbsent sm overrides (snd (evalAst sm overrides a (stack @ [normalizeRef ref]) st1))"
              by (rule "1.IH"[OF None False Some ne g[symmetric] Inr b1])
            obtain r2 st2 where e: "evalAst sm overrides a (stack @ [normalizeRef ref]) st1 = (r2, st2)"
              by (cases "evalAst sm overrides a (stack @ [normalizeRef ref]) st1")
            have b2: "blankAbsent sm overrides st2" using ih e by simp
            have "evalCell sm overrides ref stack st =
                  (case r2 of
                     Inl e \<Rightarrow> (Inl e, st2)
                   | Inr out \<Rightarrow> (Inr out, st2\<lparr>cache := (cache st2)(normalizeRef ref \<mapsto> out)\<rparr>))"
              using None False Some ne g Inr e
              by (subst evalCell.simps) (simp split: sum.splits)
            then show ?thesis using b2 blankAbsent_update_formula[OF b2 Some]
              by (cases r2) simp_all
          qed
        qed
      qed
    qed
  qed
next
  case (4 sm overrides ref stack st)
  then show ?case by simp
next
  case (5 sm overrides ref stack st)
  show ?case
  proof (cases "expandRange ref")
    case (Inl e)
    then show ?thesis using "5.prems" by simp
  next
    case (Inr refs)
    have "blankAbsent sm overrides (snd (case evalRefs sm overrides refs stack st of
             (Inl e, st1) \<Rightarrow> (Inl e, st1) | (Inr xs, st1) \<Rightarrow> (Inr (VArr xs), st1)))"
      by (rule bind_blankAbsent) (use "5.IH"[OF Inr "5.prems"] in auto)
    then show ?thesis using Inr by simp
  qed
next
  case (7 sm overrides op expr stack st)
  have "blankAbsent sm overrides (snd (case evalAst sm overrides expr stack st of
           (Inl e, st1) \<Rightarrow> (Inl e, st1) | (Inr x, st1) \<Rightarrow> (Inr (unaryOp op x), st1)))"
    by (rule bind_blankAbsent) (use "7.IH"[OF "7.prems"] in auto)
  then show ?case by simp
next
  case (8 sm overrides op left right stack st)
  have "blankAbsent sm overrides (snd (case evalAst sm overrides left stack st of
           (Inl e, st1) \<Rightarrow> (Inl e, st1)
         | (Inr l, st1) \<Rightarrow>
             (case evalAst sm overrides right stack st1 of
                (Inl e, st2) \<Rightarrow> (Inl e, st2)
              | (Inr r, st2) \<Rightarrow> (Inr (binOp op l r), st2))))"
  proof (rule bind_blankAbsent)
    show "blankAbsent sm overrides (snd (evalAst sm overrides left stack st))"
      by (rule "8.IH"(1)[OF "8.prems"])
  next
    fix l :: jsval and st1 :: session
    assume p: "evalAst sm overrides left stack st = (Inr l, st1)"
    have b1: "blankAbsent sm overrides st1" using "8.IH"(1)[OF "8.prems"] p by simp
    show "blankAbsent sm overrides (snd (case evalAst sm overrides right stack st1 of
              (Inl e, st2) \<Rightarrow> (Inl e, st2)
            | (Inr r, st2) \<Rightarrow> (Inr (binOp op l r), st2)))"
      by (rule bind_blankAbsent) (use "8.IH"(2)[OF p[symmetric] refl b1] in auto)
  qed
  then show ?case by simp
next
  case (9 sm overrides name args stack st)
  show ?case
  proof (cases "name = ''IF''")
    case True
    show ?thesis
    proof (cases args)
      case Nil
      then show ?thesis using True "9.prems" by simp
    next
      case (Cons c branches)
      have "blankAbsent sm overrides (snd (case evalAst sm overrides c stack st of
               (Inl e, st1) \<Rightarrow> (Inl e, st1)
             | (Inr cond, st1) \<Rightarrow>
                 if truthyExcel cond
                 then (case branches of
                         [] \<Rightarrow> (Inl TypeError, st1)
                       | t # _ \<Rightarrow> evalAst sm overrides t stack st1)
                 else (case branches of
                         t # e # _ \<Rightarrow> evalAst sm overrides e stack st1
                       | _ \<Rightarrow> evalAst sm overrides (StrNode []) stack st1)))"
      proof (rule bind_blankAbsent)
        show "blankAbsent sm overrides (snd (evalAst sm overrides c stack st))"
          by (rule "9.IH"(1)[OF True Cons "9.prems"])
      next
        fix cond :: jsval and st1 :: session
        assume p: "evalAst sm overrides c stack st = (Inr cond, st1)"
        have b1: "blankAbsent sm overrides st1"
          using "9.IH"(1)[OF True Cons "9.prems"] p by simp
        show "blankAbsent sm overrides (snd (
                 if truthyExcel cond
                 then (case branches of
                         [] \<Rightarrow> (Inl TypeError, st1)
                       | t # _ \<Rightarrow> evalAst sm overrides t stack st1)
                 else (case branches of
                         t # e # _ \<Rightarrow> evalAst sm overrides e stack st1
                       | _ \<Rightarrow> evalAst sm overrides (StrNode []) stack st1)))"
        proof (cases "truthyExcel cond")
          case t: True
          show ?thesis
          proof (cases branches)
            case Nil
            then show ?thesis using t b1 by simp
          next
            case b: (Cons t1 more)
            show ?thesis using t b "9.IH"(2)[OF True Cons p[symmetric] refl t b b1] by simp
          qed
        next
          case f: False
          show ?thesis
          proof (cases branches)
            case Nil
            then show ?thesis using f b1 by simp
          next
            case b: (Cons t1 more)
            show ?thesis
            proof (cases more)
              case Nil
              then show ?thesis using f b b1 by simp
            next
              case m: (Cons e1 more2)
              show ?thesis
                using f b m "9.IH"(5)[OF True Cons p[symmetric] refl f b m b1] by simp
            qed
          qed
        qed
      qed
      then show ?thesis using True Cons by simp
    qed
  next
    case nif: False
    show ?thesis
    proof (cases "name = ''SUM''")
      case True
      have "blankAbsent sm overrides (snd (case evalSum sm overrides args stack (Fin 0) st of
               (Inl e, st1) \<Rightarrow> (Inl e, st1) | (Inr acc, st1) \<Rightarrow> (Inr (VNum acc), st1)))"
        by (rule bind_blankAbsent) (use "9.IH"(6)[OF nif True "9.prems"] in auto)
      then show ?thesis using nif True by simp
    next
      case nsum: False
      show ?thesis
      proof (cases "name = ''TRIM''")
        case False
        then show ?thesis using nif nsum "9.prems" by simp
      next
        case True
        show ?thesis
        proof (cases args)
          case Nil
          then show ?thesis using nif nsum True "9.prems" by simp
        next
          case (Cons a more)
          have "blankAbsent sm overrides (snd (case evalAst sm overrides a stack st of
                   (Inl e, st1) \<Rightarrow> (Inl e, st1)
                 | (Inr x, st1) \<Rightarrow> (Inr (VStr (trimExcel x)), st1)))"
            by (rule bind_blankAbsent) (use "9.IH"(7)[OF nif nsum True Cons "9.prems"] in auto)
          then show ?thesis using nif nsum True Cons by simp
        qed
      qed
    qed
  qed
next
  case (11 sm overrides r rs stack st)
  have "blankAbsent sm overrides (snd (case evalCell sm overrides r stack st of
           (Inl e, st1) \<Rightarrow> (Inl e, st1)
         | (Inr x, st1) \<Rightarrow>
             (case evalRefs sm overrides rs stack st1 of
                (Inl e, st2) \<Rightarrow> (Inl e, st2)
              | (Inr xs, st2) \<Rightarrow> (Inr (x # xs), st2))))"
  proof (rule bind_blankAbsent)
    show "blankAbsent sm overrides (snd (evalCell sm overrides r stack st))"
      by (rule "11.IH"(1)[OF "11.prems"])
  next
    fix x :: jsval and st1 :: session
    assume p: "evalCell sm overrides r stack st = (Inr x, st1)"
    have b1: "blankAbsent sm overrides st1" using "11.IH"(1)[OF "11.prems"] p by simp
    show "blankAbsent sm overrides (snd (case evalRefs sm overrides rs stack st1 of
              (Inl e, st2) \<Rightarrow> (Inl e, st2)
            | (Inr xs, st2) \<Rightarrow> (Inr (x # xs), st2)))"
      by (rule bind_blankAbsent) (use "11.IH"(2)[OF p[symmetric] refl b1] in auto)
  qed
  then show ?case by simp
next
  case (13 sm overrides arg args stack acc st)
  have "blankAbsent sm overrides (snd (case evalAst sm overrides arg stack st of
           (Inl e, st1) \<Rightarrow> (Inl e, st1)
         | (Inr x, st1) \<Rightarrow> evalSum sm overrides args stack (addValue acc x) st1))"
  proof (rule bind_blankAbsent)
    show "blankAbsent sm overrides (snd (evalAst sm overrides arg stack st))"
      by (rule "13.IH"(1)[OF "13.prems"])
  next
    fix x :: jsval and st1 :: session
    assume p: "evalAst sm overrides arg stack st = (Inr x, st1)"
    have b1: "blankAbsent sm overrides st1" using "13.IH"(1)[OF "13.prems"] p by simp
    show "blankAbsent sm overrides (snd (evalSum sm overrides args stack (addValue acc x) st1))"
      by (rule "13.IH"(2)[OF p[symmetric] refl b1])
  qed
  then show ?case by simp
qed simp_all

text \<open>
  Claim C10. For every reference whose normalized form is in neither the cell table
  of the document nor the overrides, \<open>evaluateCell\<close> returns the empty text, without an
  error, and the cache of the session then holds the empty text under the normalized
  reference. This is so in every session that keeps \<open>blankAbsent\<close>: a fresh session
  does, and a session after \<open>evaluateCell\<close> does when the session before did.
\<close>

theorem absent_cell_blank:
  assumes a: "map_of (cells (sheetModel ev)) (normalizeRef ref) = None"
    and o: "overrides ev (normalizeRef ref) = None"
    and inv: "blankAbsent (sheetModel ev) (overrides ev) (session ev)"
  shows "fst (evaluateCell ev ref) = Inr (VStr []) \<and>
         cache (session (snd (evaluateCell ev ref))) (normalizeRef ref) = Some (VStr []) \<and>
         blankAbsent (sheetModel ev) (overrides ev) (session (snd (evaluateCell ev ref))) \<and>
         blankAbsent sm (overrides (SheetEvaluator sm entries)) (session (SheetEvaluator sm entries))"
proof -
  let ?st = "session ev"
  let ?r = "evalCell (sheetModel ev) (overrides ev) ref [] ?st"
  have e: "evaluateCell ev ref = (fst ?r, ev\<lparr>session := snd ?r\<rparr>)"
    by (simp add: evaluateCell_def case_prod_unfold)
  have res: "fst ?r = Inr (VStr []) \<and> cache (snd ?r) (normalizeRef ref) = Some (VStr [])"
  proof (cases "cache ?st (normalizeRef ref)")
    case None
    have f: "getCellFormula (sheetModel ev) (normalizeRef ref) = None"
      using a by (rule getCellFormula_absent)
    have r: "getCellRaw (sheetModel ev) (overrides ev) (normalizeRef ref) = VNull"
      using a o by (rule getCellRaw_absent)
    have "?r = (Inr (VStr []), ?st\<lparr>cache := (cache ?st)(normalizeRef ref \<mapsto> VStr [])\<rparr>)"
      using evalCell_no_formula[of ?st ref "[]" "sheetModel ev" "overrides ev"] None f
      by (simp add: r rawResult_def)
    then show ?thesis by simp
  next
    case (Some x)
    then have "x = VStr []" using inv a o by (auto simp: blankAbsent_def)
    then show ?thesis using Some by (subst evalCell.simps, subst evalCell.simps) simp
  qed
  have keep: "blankAbsent (sheetModel ev) (overrides ev) (snd ?r)"
    using inv by (rule eval_blankAbsent(1))
  have fresh: "blankAbsent sm (overrides (SheetEvaluator sm entries))
                 (session (SheetEvaluator sm entries))"
    by (simp add: blankAbsent_def SheetEvaluator_def)
  show ?thesis using res keep fresh by (simp add: e)
qed

theorem absent_cell_blank_witness:
  "map_of (cells (sheetModel (SheetEvaluator (formulaSheet ''1'') []))) (normalizeRef ''z$9'') = None \<and>
   overrides (SheetEvaluator (formulaSheet ''1'') []) (normalizeRef ''z$9'') = None \<and>
   blankAbsent (sheetModel (SheetEvaluator (formulaSheet ''1'') []))
     (overrides (SheetEvaluator (formulaSheet ''1'') []))
     (session (SheetEvaluator (formulaSheet ''1'') [])) \<and>
   fst (evaluateCell (SheetEvaluator (formulaSheet ''1'') []) ''z$9'') = Inr (VStr []) \<and>
   cache (session (snd (evaluateCell (SheetEvaluator (formulaSheet ''1'') []) ''z$9''))) ''Z9''
     = Some (VStr [])"
proof -
  let ?ev = "SheetEvaluator (formulaSheet ''1'') []"
  have n: "normalizeRef ''z$9'' = ''Z9''" by code_simp
  have a: "map_of (cells (sheetModel ?ev)) (normalizeRef ''z$9'') = None"
    by (simp add: n SheetEvaluator_def formulaSheet_def)
  have b: "overrides ?ev (normalizeRef ''z$9'') = None"
    by (simp add: SheetEvaluator_def)
  have c: "blankAbsent (sheetModel ?ev) (overrides ?ev) (session ?ev)"
    by (simp add: blankAbsent_def SheetEvaluator_def)
  from absent_cell_blank[OF a b c]
  have "fst (evaluateCell ?ev ''z$9'') = Inr (VStr [])"
    and "cache (session (snd (evaluateCell ?ev ''z$9''))) ''Z9'' = Some (VStr [])"
    by (simp_all add: n)
  with a b c show ?thesis by blast
qed











text \<open>
  Claim C6. Once the condition of \<open>IF\<close> has a value, the call is the evaluation of
  one branch, in the session the condition left: the second argument when the value
  is truthy, the third when it is not, and the empty text when it is not and there is
  no third argument. Result and session are those of that branch alone, so the other
  branch is not evaluated: it caches no cell and raises no error. \<open>SUM(XX:YY)\<close> fails
  on its own and does nothing in the branch that is not taken.
\<close>

theorem if_short_circuit:
  assumes c: "evalAst sm ov c stack st = (Inr cond, st1)"
  shows "evalAst sm ov (CallNode ''IF'' [c, t, e]) stack st =
           (if truthyExcel cond then evalAst sm ov t stack st1 else evalAst sm ov e stack st1) \<and>
         evalAst sm ov (CallNode ''IF'' [c, t]) stack st =
           (if truthyExcel cond then evalAst sm ov t stack st1 else (Inr (VStr []), st1)) \<and>
         formulaValue ''IF(1>0, \"yes\", \"no\")'' = Inr (VStr ''yes'') \<and>
         formulaValue ''IF(0, \"yes\", \"no\")'' = Inr (VStr ''no'') \<and>
         formulaValue ''IF(0,\"yes\")'' = Inr (VStr []) \<and>
         formulaValue ''SUM(XX:YY)'' = Inl (BadCellRef ''XX'') \<and>
         formulaValue ''IF(1>0, \"yes\", SUM(XX:YY))'' = Inr (VStr ''yes'') \<and>
         formulaValue ''IF(0, SUM(XX:YY), \"no\")'' = Inr (VStr ''no'')"
proof -
  have 1: "evalAst sm ov (CallNode ''IF'' [c, t, e]) stack st =
           (if truthyExcel cond then evalAst sm ov t stack st1 else evalAst sm ov e stack st1)"
    by (simp add: c)
  have 2: "evalAst sm ov (CallNode ''IF'' [c, t]) stack st =
           (if truthyExcel cond then evalAst sm ov t stack st1 else (Inr (VStr []), st1))"
    by (simp add: c)
  have 3: "formulaValue ''IF(1>0, \"yes\", \"no\")'' = Inr (VStr ''yes'')" by code_simp
  have 4: "formulaValue ''IF(0, \"yes\", \"no\")'' = Inr (VStr ''no'')" by code_simp
  have 5: "formulaValue ''IF(0,\"yes\")'' = Inr (VStr [])" by code_simp
  have 6: "formulaValue ''SUM(XX:YY)'' = Inl (BadCellRef ''XX'')" by code_simp
  have 7: "formulaValue ''IF(1>0, \"yes\", SUM(XX:YY))'' = Inr (VStr ''yes'')" by code_simp
  have 8: "formulaValue ''IF(0, SUM(XX:YY), \"no\")'' = Inr (VStr ''no'')" by code_simp
  show ?thesis using 1 2 3 4 5 6 7 8 by blast
qed

theorem if_short_circuit_witness:
  "evalAst (formulaSheet []) Map.empty (NumNode (Fin 1)) []
     \<lparr>cache = Map.empty, astCache = Map.empty\<rparr>
     = (Inr (VNum (Fin 1)), \<lparr>cache = Map.empty, astCache = Map.empty\<rparr>) \<and>
   evalAst (formulaSheet []) Map.empty
     (CallNode ''IF'' [NumNode (Fin 1), StrNode ''yes'', CellNode ''B1'']) []
     \<lparr>cache = Map.empty, astCache = Map.empty\<rparr>
     = (Inr (VStr ''yes''), \<lparr>cache = Map.empty, astCache = Map.empty\<rparr>) \<and>
   cache (snd (evalAst (formulaSheet []) Map.empty
     (CallNode ''IF'' [NumNode (Fin 0), StrNode ''yes'', CellNode ''B1'']) []
     \<lparr>cache = Map.empty, astCache = Map.empty\<rparr>)) ''B1'' = Some (VNum (Fin 2))"
proof -
  let ?st = "\<lparr>cache = Map.empty, astCache = Map.empty\<rparr> :: session"
  have c: "evalAst (formulaSheet []) Map.empty (NumNode (Fin 1)) [] ?st = (Inr (VNum (Fin 1)), ?st)"
    by simp
  have t: "truthyExcel (VNum (Fin 1))" by simp
  from if_short_circuit[OF c, of "StrNode ''yes''" "CellNode ''B1''"]
  have "evalAst (formulaSheet []) Map.empty
          (CallNode ''IF'' [NumNode (Fin 1), StrNode ''yes'', CellNode ''B1'']) [] ?st
        = (Inr (VStr ''yes''), ?st)"
    using t by simp
  moreover have "cache (snd (evalAst (formulaSheet []) Map.empty
     (CallNode ''IF'' [NumNode (Fin 0), StrNode ''yes'', CellNode ''B1'']) [] ?st)) ''B1''
     = Some (VNum (Fin 2))"
    by code_simp
  ultimately show ?thesis using c by blast
qed



end
